theory Spec2Isabelle
  imports Complex_Main "HOL-Library.AList"
begin

unbundle bit_operations_syntax

section \<open>The retry decorator (test\_common\_framework/utils.py, \<open>retry\<close>)\<close>

text \<open>
  The wrapped callable \<open>func\<close> is a step on the state of the world: called in a state it
  either raises (\<open>Inl e\<close>) or returns (\<open>Inr v\<close>), and leaves a new state. The tuple
  \<open>exceptions\<close> of the decorator is the predicate \<open>exceptions\<close> on what \<open>func\<close> raises
  (the \<open>isinstance\<close> test of the \<open>except\<close> clause).

  Durations are real numbers. \<open>time.sleep\<close> raises ValueError for a negative duration and
  blocks otherwise; the model records each duration slept in \<open>slept\<close>, and counts the calls
  of \<open>func\<close> in \<open>calls\<close>.
\<close>

datatype 'e raised =
    Propagated 'e      \<comment> \<open>an exception of \<open>func\<close> that \<open>exceptions\<close> does not match\<close>
  | Reraised 'e        \<comment> \<open>\<open>raise last_exception\<close>, after the loop\<close>
  | RaiseNone          \<comment> \<open>\<open>raise None\<close>: TypeError, exceptions must derive from BaseException\<close>
  | SleepNegative      \<comment> \<open>ValueError of \<open>time.sleep\<close>: sleep length must be non-negative\<close>

record ('s, 'e) retry_state =
  world :: 's
  current_delay :: real
  last_exception :: "'e option"
  calls :: nat
  slept :: "real list"

function retry_loop ::
  "('s \<Rightarrow> ('e + 'a) \<times> 's) \<Rightarrow> ('e \<Rightarrow> bool) \<Rightarrow> int \<Rightarrow> real \<Rightarrow> int \<Rightarrow>
   ('s, 'e) retry_state \<Rightarrow> ('e raised + 'a) \<times> ('s, 'e) retry_state"
where
  "retry_loop func exceptions max_attempts backoff attempt st =
    (if attempt < max_attempts then
       (case func (world st) of
          (Inr v, w) \<Rightarrow> (Inr v, st\<lparr>world := w, calls := calls st + 1\<rparr>)
        | (Inl e, w) \<Rightarrow>
            (if exceptions e then
               (let st1 = st\<lparr>world := w, calls := calls st + 1, last_exception := Some e\<rparr> in
                if attempt < max_attempts - 1 then
                  (if current_delay st1 < 0 then (Inl SleepNegative, st1)
                   else retry_loop func exceptions max_attempts backoff (attempt + 1)
                          (st1\<lparr>slept := slept st1 @ [current_delay st1],
                               current_delay := current_delay st1 * backoff\<rparr>))
                else retry_loop func exceptions max_attempts backoff (attempt + 1) st1)
             else (Inl (Propagated e), st\<lparr>world := w, calls := calls st + 1\<rparr>)))
     else
       (case last_exception st of
          None \<Rightarrow> (Inl RaiseNone, st)
        | Some e \<Rightarrow> (Inl (Reraised e), st)))"
  by pat_completeness auto
termination
  by (relation "measure (\<lambda>(func, exceptions, max_attempts, backoff, attempt, st).
                    nat (max_attempts - attempt))") auto

declare retry_loop.simps [simp del]

definition retry ::
  "int \<Rightarrow> real \<Rightarrow> real \<Rightarrow> ('e \<Rightarrow> bool) \<Rightarrow> ('s \<Rightarrow> ('e + 'a) \<times> 's) \<Rightarrow> 's \<Rightarrow>
   ('e raised + 'a) \<times> ('s, 'e) retry_state"
where
  "retry max_attempts delay backoff exceptions func w =
     retry_loop func exceptions max_attempts backoff 0
       \<lparr>world = w, current_delay = delay, last_exception = None, calls = 0, slept = []\<rparr>"

text \<open>The state of the world after \<open>k\<close> calls of \<open>func\<close>, and what the call made in a
  state raises or returns.\<close>

fun after_calls :: "('s \<Rightarrow> ('e + 'a) \<times> 's) \<Rightarrow> nat \<Rightarrow> 's \<Rightarrow> 's" where
  "after_calls func 0 w = w"
| "after_calls func (Suc k) w = after_calls func k (snd (func w))"

definition outcome :: "('s \<Rightarrow> ('e + 'a) \<times> 's) \<Rightarrow> 's \<Rightarrow> 'e + 'a" where
  "outcome func w = fst (func w)"


text \<open>An operation for the examples: the world is the number of calls made so far; the
  call numbered \<open>k\<close> (from 0) raises \<open>k\<close> while \<open>k < fails\<close> and returns \<open>k\<close> after that.\<close>

definition flaky :: "nat \<Rightarrow> nat \<Rightarrow> (nat + nat) \<times> nat" where
  "flaky fails k = (if k < fails then Inl k else Inr k, Suc k)"



section \<open>The list chunker (\<open>chunk_list\<close>)\<close>

datatype range_error = RangeStepZero  \<comment> \<open>ValueError: range() arg 3 must not be zero\<close>

function range_up :: "int \<Rightarrow> int \<Rightarrow> int \<Rightarrow> int list" where
  "range_up i stop step =
     (if 0 < step \<and> i < stop then i # range_up (i + step) stop step else [])"
  by pat_completeness auto
termination
  by (relation "measure (\<lambda>(i, stop, step). nat (stop - i))") auto

function range_down :: "int \<Rightarrow> int \<Rightarrow> int \<Rightarrow> int list" where
  "range_down i stop step =
     (if step < 0 \<and> stop < i then i # range_down (i + step) stop step else [])"
  by pat_completeness auto
termination
  by (relation "measure (\<lambda>(i, stop, step). nat (i - stop))") auto

declare range_up.simps [simp del] range_down.simps [simp del]

definition py_range :: "int \<Rightarrow> int \<Rightarrow> int \<Rightarrow> range_error + int list" where
  "py_range start stop step =
     (if step = 0 then Inl RangeStepZero
      else if 0 < step then Inr (range_up start stop step)
      else Inr (range_down start stop step))"

text \<open>A slice \<open>xs[lo:hi]\<close>: a negative bound counts from the end, and both are clamped to
  the list.\<close>

definition slice_bound :: "int \<Rightarrow> int \<Rightarrow> int" where
  "slice_bound n i = (if i < 0 then max (i + n) 0 else min i n)"

definition py_slice :: "'a list \<Rightarrow> int \<Rightarrow> int \<Rightarrow> 'a list" where
  "py_slice xs lo hi =
     (let n = int (length xs); l = slice_bound n lo; h = slice_bound n hi
      in take (nat (h - l)) (drop (nat l) xs))"

definition chunk_list :: "'a list \<Rightarrow> int \<Rightarrow> range_error + 'a list list" where
  "chunk_list lst chunk_size =
     (case py_range 0 (int (length lst)) chunk_size of
        Inl err \<Rightarrow> Inl err
      | Inr is \<Rightarrow> Inr (map (\<lambda>i. py_slice lst i (i + chunk_size)) is))"


section \<open>Python values\<close>

text \<open>
  A Python \<open>str\<close> is the list of its code points. \<open>ustr\<close> reads a literal of the theory as
  such a list.
\<close>

type_synonym pystr = "nat list"

definition ustr :: "string \<Rightarrow> pystr" where
  "ustr cs = map of_char cs"

text \<open>
  The values the helpers are applied to. A \<open>dict\<close> is the list of its items in insertion
  order, with \<open>str\<close> keys (\<open>Dict[str, Any]\<close> in the annotations of the source). A \<open>float\<close>
  is carried as the text \<open>repr\<close> gives for it; floating-point arithmetic is not modelled.
  \<open>PObj c t\<close> is an object of any other class, named \<open>c\<close>, for which \<open>str\<close> gives
  \<open>t\<close>; the \<open>json\<close> module has no rule for it (so it is no \<open>bytes\<close>, no \<open>bytearray\<close> and
  no instance of a subclass of the classes above).
\<close>

datatype pyval =
    PNone
  | PBool bool
  | PInt int
  | PFloat pystr
  | PStr pystr
  | PList "pyval list"
  | PTuple "pyval list"
  | PDict "(pystr \<times> pyval) list"
  | PObj string pystr

fun type_name :: "pyval \<Rightarrow> string" where
  "type_name PNone = ''NoneType''"
| "type_name (PBool b) = ''bool''"
| "type_name (PInt i) = ''int''"
| "type_name (PFloat r) = ''float''"
| "type_name (PStr s) = ''str''"
| "type_name (PList xs) = ''list''"
| "type_name (PTuple xs) = ''tuple''"
| "type_name (PDict d) = ''dict''"
| "type_name (PObj c t) = c"

fun is_dict :: "pyval \<Rightarrow> bool" where
  "is_dict (PDict d) = True"
| "is_dict v = False"

text \<open>Exceptions: the class and the message; \<open>exn_str\<close> is \<open>str(e)\<close>. \<open>subclass_of\<close> is the part of the
  class hierarchy the \<open>except\<close> clauses of the source test.\<close>

datatype exn_class =
  Exception | TypeError | ValueError | AttributeError | JSONDecodeError | RecursionError

datatype exn = Exn (exn_class: exn_class) (exn_text: string)

definition exn_str :: "exn \<Rightarrow> pystr" where
  "exn_str e = ustr (exn_text e)"

fun subclass_of :: "exn_class \<Rightarrow> exn_class \<Rightarrow> bool" where
  "subclass_of c Exception = True"
| "subclass_of JSONDecodeError ValueError = True"
| "subclass_of c c' = (c = c')"

definition caught_by :: "exn \<Rightarrow> exn_class list \<Rightarrow> bool" where
  "caught_by e classes = (\<exists>c \<in> set classes. subclass_of (exn_class e) c)"

definition quoted :: "string \<Rightarrow> string" where
  "quoted s = [CHR 0x27] @ s @ [CHR 0x27]"

definition no_attribute :: "pyval \<Rightarrow> string \<Rightarrow> exn" where
  "no_attribute v a =
     Exn AttributeError (quoted (type_name v) @ '' object has no attribute '' @ quoted a)"

text \<open>\<open>dict(items)\<close>: a later pair with a key already present replaces the value and
  keeps the place of the key.\<close>

definition dict_items :: "('k \<times> 'v) list \<Rightarrow> ('k \<times> 'v) list" where
  "dict_items items = fold (\<lambda>(k, v) d. AList.update k v d) items []"


section \<open>The dictionary flattener (\<open>flatten_dict\<close>)\<close>

text \<open>\<open>flatten_loop\<close> is the \<open>for\<close> loop that collects \<open>items\<close>; \<open>flatten_mapping\<close> is
  the function on the items of a \<open>dict\<close>, and \<open>flatten_dict\<close> the function on any value:
  \<open>d.items()\<close> raises AttributeError on a value without that method.\<close>

fun flatten_mapping :: "(pystr \<times> pyval) list \<Rightarrow> pystr \<Rightarrow> pystr \<Rightarrow> (pystr \<times> pyval) list"
and flatten_loop :: "(pystr \<times> pyval) list \<Rightarrow> pystr \<Rightarrow> pystr \<Rightarrow> (pystr \<times> pyval) list"
where
  "flatten_mapping d parent_key separator = dict_items (flatten_loop d parent_key separator)"
| "flatten_loop [] parent_key separator = []"
| "flatten_loop ((k, v) # rest) parent_key separator =
    (let new_key = (if parent_key \<noteq> [] then parent_key @ separator @ k else k) in
     (case v of
        PDict d' \<Rightarrow> flatten_mapping d' new_key separator
      | _ \<Rightarrow> [(new_key, v)]) @ flatten_loop rest parent_key separator)"

definition flatten_dict :: "pyval \<Rightarrow> pystr \<Rightarrow> pystr \<Rightarrow> exn + pyval" where
  "flatten_dict d parent_key separator =
     (case d of
        PDict items \<Rightarrow> Inr (PDict (flatten_mapping items parent_key separator))
      | _ \<Rightarrow> Inl (no_attribute d ''items''))"

text \<open>The words of the specification: the leaves of a nested mapping, each with the
  path of keys that leads to it from the root, and the path joined by the separator.\<close>

fun leaves :: "(pystr \<times> pyval) list \<Rightarrow> (pystr list \<times> pyval) list" where
  "leaves [] = []"
| "leaves ((k, PDict d') # rest) = map (\<lambda>(p, v). (k # p, v)) (leaves d') @ leaves rest"
| "leaves ((k, v) # rest) = ([k], v) # leaves rest"

fun join_path :: "pystr \<Rightarrow> pystr list \<Rightarrow> pystr" where
  "join_path sep [] = []"
| "join_path sep [k] = k"
| "join_path sep (k # ks) = k @ sep @ join_path sep ks"

definition leaf_entries :: "pystr \<Rightarrow> (pystr \<times> pyval) list \<Rightarrow> (pystr \<times> pyval) list" where
  "leaf_entries sep d = map (\<lambda>(p, v). (join_path sep p, v)) (leaves d)"

definition mapping_keys_nonempty :: "(pystr \<times> pyval) list \<Rightarrow> bool" where
  "mapping_keys_nonempty d = (\<forall>(k, v) \<in> set d. is_dict v \<longrightarrow> k \<noteq> [])"


section \<open>The nested-path accessor (\<open>get_nested_value\<close>)\<close>

text \<open>\<open>key_path.split(separator)\<close>: ValueError for the empty separator; otherwise the
  pieces between the occurrences of the separator, found from the left.\<close>

fun split_from :: "pystr \<Rightarrow> pystr \<Rightarrow> pystr \<Rightarrow> pystr list" where
  "split_from sep piece [] = [piece]"
| "split_from sep piece (c # cs) =
     (if sep \<noteq> [] \<and> take (length sep) (c # cs) = sep
      then piece # split_from sep [] (drop (length sep) (c # cs))
      else split_from sep (piece @ [c]) cs)"

definition str_split :: "pystr \<Rightarrow> pystr \<Rightarrow> exn + pystr list" where
  "str_split s sep =
     (if sep = [] then Inl (Exn ValueError ''empty separator'')
      else Inr (split_from sep [] s))"

fun get_nested_loop :: "pyval \<Rightarrow> pystr list \<Rightarrow> pyval \<Rightarrow> pyval" where
  "get_nested_loop result [] dflt = result"
| "get_nested_loop result (key # keys) dflt =
     (case result of
        PDict d \<Rightarrow>
          (case map_of d key of
             Some v \<Rightarrow> get_nested_loop v keys dflt
           | None \<Rightarrow> dflt)
      | _ \<Rightarrow> dflt)"

definition get_nested_value :: "pyval \<Rightarrow> pystr \<Rightarrow> pyval \<Rightarrow> pystr \<Rightarrow> exn + pyval" where
  "get_nested_value d key_path dflt separator =
     (case str_split key_path separator of
        Inl e \<Rightarrow> Inl e
      | Inr keys \<Rightarrow> Inr (get_nested_loop d keys dflt))"

text \<open>The words of the specification: the value reached by descending through a value
  along a list of keys, every step finding its key inside a mapping.\<close>

inductive reaches :: "pyval \<Rightarrow> pystr list \<Rightarrow> pyval \<Rightarrow> bool" where
  here: "reaches v [] v"
| step: "map_of d k = Some v' \<Longrightarrow> reaches v' ks v \<Longrightarrow> reaches (PDict d) (k # ks) v"


section \<open>The JSON encoder (\<open>json.dumps\<close> with \<open>default=str\<close>)\<close>

text \<open>
  The model of the \<open>json\<close> module of the standard library follows its sources
  (\<open>json/encoder.py\<close>, \<open>json/decoder.py\<close>, \<open>json/scanner.py\<close>), with the defaults in
  force in \<open>json.dumps(obj, default=str)\<close> and \<open>json.loads(s)\<close>: \<open>ensure_ascii\<close>, the
  separators \<open>", "\<close> and \<open>": "\<close>, strict strings, hexadecimal digits only in \<open>\uXXXX\<close>.
  Two limits of the interpreter are part of it: the conversion between \<open>int\<close> and decimal
  text raises ValueError beyond \<open>int_max_str_digits\<close> digits
  (\<open>sys.int_info.default_max_str_digits\<close>), and the decoder is defined by recursion on a budget, whose
  exhaustion is the RecursionError of the interpreter; \<open>decode\<close> starts it with a budget
  that a text of its length cannot use up (the recursion limit of the interpreter itself is
  not modelled). The text \<open>str\<close> gives for a JSONDecodeError ends with the position of the
  error, which is left out here.
\<close>

definition int_max_str_digits :: nat where
  "int_max_str_digits = 4300"

function decimal :: "nat \<Rightarrow> pystr" where
  "decimal n = (if n < 10 then [0x30 + n] else decimal (n div 10) @ [0x30 + n mod 10])"
  by pat_completeness auto
termination
  by (relation "measure id") auto

declare decimal.simps [simp del]

definition int_repr :: "int \<Rightarrow> exn + pystr" where
  "int_repr i =
     (let digits = decimal (nat \<bar>i\<bar>) in
      if int_max_str_digits < length digits
      then Inl (Exn ValueError (''Exceeds the limit (4300 digits) for integer string ''
             @ ''conversion; use sys.set_int_max_str_digits() to increase the limit''))
      else Inr ((if i < 0 then [0x2D] else []) @ digits))"

definition floatstr :: "pystr \<Rightarrow> pystr" where
  "floatstr r =
     (if r = ustr ''nan'' then ustr ''NaN''
      else if r = ustr ''inf'' then ustr ''Infinity''
      else if r = ustr ''-inf'' then ustr ''-Infinity''
      else r)"

definition hex_digit :: "nat \<Rightarrow> nat" where
  "hex_digit d = (if d < 10 then 0x30 + d else 0x61 + (d - 10))"

definition hex4 :: "nat \<Rightarrow> pystr" where
  "hex4 n = [hex_digit (n div 4096 mod 16), hex_digit (n div 256 mod 16),
             hex_digit (n div 16 mod 16), hex_digit (n mod 16)]"

definition u_escape :: "nat \<Rightarrow> pystr" where
  "u_escape n = [0x5C, 0x75] @ hex4 n"

definition escape_char :: "nat \<Rightarrow> pystr" where
  "escape_char c =
     (if c = 0x5C then [0x5C, 0x5C]
      else if c = 0x22 then [0x5C, 0x22]
      else if 0x20 \<le> c \<and> c \<le> 0x7E then [c]
      else if c = 0x08 then [0x5C, 0x62]
      else if c = 0x0C then [0x5C, 0x66]
      else if c = 0x0A then [0x5C, 0x6E]
      else if c = 0x0D then [0x5C, 0x72]
      else if c = 0x09 then [0x5C, 0x74]
      else if c < 0x10000 then u_escape c
      else
        (let n = c - 0x10000;
             s1 = 0xD800 OR (drop_bit 10 n AND 0x3FF);
             s2 = 0xDC00 OR (n AND 0x3FF)
         in u_escape s1 @ u_escape s2))"

definition encode_basestring_ascii :: "pystr \<Rightarrow> pystr" where
  "encode_basestring_ascii s = [0x22] @ concat (map escape_char s) @ [0x22]"

fun iterencode :: "pyval \<Rightarrow> exn + pystr"
and iterencode_list :: "bool \<Rightarrow> pyval list \<Rightarrow> exn + pystr"
and iterencode_dict :: "bool \<Rightarrow> (pystr \<times> pyval) list \<Rightarrow> exn + pystr"
where
  "iterencode (PStr s) = Inr (encode_basestring_ascii s)"
| "iterencode PNone = Inr (ustr ''null'')"
| "iterencode (PBool b) = Inr (if b then ustr ''true'' else ustr ''false'')"
| "iterencode (PInt i) = int_repr i"
| "iterencode (PFloat r) = Inr (floatstr r)"
| "iterencode (PList lst) =
     (if lst = [] then Inr (ustr ''[]'')
      else (case iterencode_list True lst of
              Inl e \<Rightarrow> Inl e
            | Inr chunks \<Rightarrow> Inr ([0x5B] @ chunks @ [0x5D])))"
| "iterencode (PTuple lst) =
     (if lst = [] then Inr (ustr ''[]'')
      else (case iterencode_list True lst of
              Inl e \<Rightarrow> Inl e
            | Inr chunks \<Rightarrow> Inr ([0x5B] @ chunks @ [0x5D])))"
| "iterencode (PDict dct) =
     (if dct = [] then Inr (ustr ''{}'')
      else (case iterencode_dict True dct of
              Inl e \<Rightarrow> Inl e
            | Inr chunks \<Rightarrow> Inr ([0x7B] @ chunks @ [0x7D])))"
| "iterencode (PObj c t) = Inr (encode_basestring_ascii t)"
| "iterencode_list first [] = Inr []"
| "iterencode_list first (v # lst) =
     (case iterencode v of
        Inl e \<Rightarrow> Inl e
      | Inr chunk \<Rightarrow>
          (case iterencode_list False lst of
             Inl e \<Rightarrow> Inl e
           | Inr chunks \<Rightarrow> Inr ((if first then [] else ustr '', '') @ chunk @ chunks)))"
| "iterencode_dict first [] = Inr []"
| "iterencode_dict first ((key, v) # items) =
     (case iterencode v of
        Inl e \<Rightarrow> Inl e
      | Inr chunk \<Rightarrow>
          (case iterencode_dict False items of
             Inl e \<Rightarrow> Inl e
           | Inr chunks \<Rightarrow>
               Inr ((if first then [] else ustr '', '') @ encode_basestring_ascii key
                    @ ustr '': '' @ chunk @ chunks)))"

definition json_dumps :: "pyval \<Rightarrow> exn + pystr" where
  "json_dumps obj = iterencode obj"

definition safe_json_dumps :: "pyval \<Rightarrow> pystr \<Rightarrow> exn + pystr" where
  "safe_json_dumps obj dflt =
     (case json_dumps obj of
        Inr text \<Rightarrow> Inr text
      | Inl e \<Rightarrow> if caught_by e [TypeError, ValueError] then Inr dflt else Inl e)"


section \<open>The JSON decoder (\<open>json.loads\<close>)\<close>

definition json_error :: "string \<Rightarrow> exn" where
  "json_error msg = Exn JSONDecodeError msg"

definition is_ws :: "nat \<Rightarrow> bool" where
  "is_ws c = (c = 0x20 \<or> c = 0x09 \<or> c = 0x0A \<or> c = 0x0D)"

definition skip_ws :: "pystr \<Rightarrow> pystr" where
  "skip_ws s = dropWhile is_ws s"

definition is_digit :: "nat \<Rightarrow> bool" where
  "is_digit c = (0x30 \<le> c \<and> c \<le> 0x39)"

definition hex_value :: "nat \<Rightarrow> nat option" where
  "hex_value c =
     (if 0x30 \<le> c \<and> c \<le> 0x39 then Some (c - 0x30)
      else if 0x61 \<le> c \<and> c \<le> 0x66 then Some (c - 0x61 + 10)
      else if 0x41 \<le> c \<and> c \<le> 0x46 then Some (c - 0x41 + 10)
      else None)"

definition decode_uXXXX :: "pystr \<Rightarrow> nat option" where
  "decode_uXXXX s =
     (case take 4 s of
        [a, b, c, d] \<Rightarrow>
          (case (hex_value a, hex_value b, hex_value c, hex_value d) of
             (Some x3, Some x2, Some x1, Some x0) \<Rightarrow> Some (((x3 * 16 + x2) * 16 + x1) * 16 + x0)
           | _ \<Rightarrow> None)
      | _ \<Rightarrow> None)"

definition backslash :: "nat \<Rightarrow> nat option" where
  "backslash esc =
     (if esc = 0x22 then Some 0x22
      else if esc = 0x5C then Some 0x5C
      else if esc = 0x2F then Some 0x2F
      else if esc = 0x62 then Some 0x08
      else if esc = 0x66 then Some 0x0C
      else if esc = 0x6E then Some 0x0A
      else if esc = 0x72 then Some 0x0D
      else if esc = 0x74 then Some 0x09
      else None)"

definition append_char :: "nat \<Rightarrow> exn + pystr \<times> pystr \<Rightarrow> exn + pystr \<times> pystr" where
  "append_char c r = (case r of Inl e \<Rightarrow> Inl e | Inr (chunks, end) \<Rightarrow> Inr (c # chunks, end))"

fun scanstring :: "pystr \<Rightarrow> exn + pystr \<times> pystr" where
  "scanstring [] = Inl (json_error ''Unterminated string starting at'')"
| "scanstring (c # s) =
     (if c = 0x22 then Inr ([], s)
      else if c = 0x5C then
        (case s of
           [] \<Rightarrow> Inl (json_error ''Unterminated string starting at'')
         | esc # s1 \<Rightarrow>
             if esc \<noteq> 0x75 then
               (case backslash esc of
                  None \<Rightarrow> Inl (json_error (''Invalid '' @ [CHR 0x5C] @ ''escape''))
                | Some char \<Rightarrow> append_char char (scanstring s1))
             else
               (case decode_uXXXX s1 of
                  None \<Rightarrow> Inl (json_error (''Invalid '' @ [CHR 0x5C] @ ''uXXXX escape''))
                | Some uni \<Rightarrow>
                    if 0xD800 \<le> uni \<and> uni \<le> 0xDBFF \<and> take 2 (drop 4 s1) = [0x5C, 0x75] then
                      (case decode_uXXXX (drop 6 s1) of
                         None \<Rightarrow> Inl (json_error (''Invalid '' @ [CHR 0x5C] @ ''uXXXX escape''))
                       | Some uni2 \<Rightarrow>
                           if 0xDC00 \<le> uni2 \<and> uni2 \<le> 0xDFFF then
                             append_char
                               (0x10000 + (push_bit 10 (uni - 0xD800) OR (uni2 - 0xDC00)))
                               (scanstring (drop 10 s1))
                           else append_char uni (scanstring (drop 4 s1)))
                    else append_char uni (scanstring (drop 4 s1))))
      else if c < 0x20 then Inl (json_error ''Invalid control character at'')
      else append_char c (scanstring s))"

text \<open>\<open>NUMBER_RE\<close>: the integer part, the fraction and the exponent (each empty when
  absent), and the text after the match.\<close>

definition match_frac :: "pystr \<Rightarrow> pystr \<times> pystr" where
  "match_frac s =
     (case s of
        c # r \<Rightarrow>
          if c = 0x2E \<and> takeWhile is_digit r \<noteq> []
          then (c # takeWhile is_digit r, dropWhile is_digit r)
          else ([], s)
      | [] \<Rightarrow> ([], s))"

definition match_exp :: "pystr \<Rightarrow> pystr \<times> pystr" where
  "match_exp s =
     (case s of
        c # r \<Rightarrow>
          if c = 0x65 \<or> c = 0x45 then
            (let sign = (case r of c' # r' \<Rightarrow> if c' = 0x2D \<or> c' = 0x2B then [c'] else [] | [] \<Rightarrow> []);
                 r1 = drop (length sign) r
             in if takeWhile is_digit r1 \<noteq> []
                then (c # sign @ takeWhile is_digit r1, dropWhile is_digit r1)
                else ([], s))
          else ([], s)
      | [] \<Rightarrow> ([], s))"

definition match_number :: "pystr \<Rightarrow> (pystr \<times> pystr \<times> pystr \<times> pystr) option" where
  "match_number s =
     (let sign = (case s of c # r \<Rightarrow> if c = 0x2D then [c] else [] | [] \<Rightarrow> []);
          s1 = drop (length sign) s
      in case s1 of
           [] \<Rightarrow> None
         | c # r \<Rightarrow>
             if c = 0x30 \<or> (0x31 \<le> c \<and> c \<le> 0x39) then
               (let digits = (if c = 0x30 then [c] else c # takeWhile is_digit r);
                    r1 = (if c = 0x30 then r else dropWhile is_digit r);
                    (fraction, r2) = match_frac r1;
                    (exponent, r3) = match_exp r2
                in Some (sign @ digits, fraction, exponent, r3))
             else None)"

definition digits_value :: "pystr \<Rightarrow> nat" where
  "digits_value ds = foldl (\<lambda>a d. 10 * a + (d - 0x30)) 0 ds"

text \<open>\<open>int(integer)\<close> on a match of the integer part of \<open>NUMBER_RE\<close>.\<close>

definition parse_int :: "pystr \<Rightarrow> exn + int" where
  "parse_int integer =
     (let negative = (take 1 integer = [0x2D]);
          digits = (if negative then drop 1 integer else integer)
      in if int_max_str_digits < length digits
         then Inl (Exn ValueError
                (''Exceeds the limit (4300 digits) for integer string conversion: value has ''
                 @ map char_of (decimal (length digits))
                 @ '' digits; use sys.set_int_max_str_digits() to increase the limit''))
         else Inr (if negative then - int (digits_value digits) else int (digits_value digits)))"

definition recursion_error :: exn where
  "recursion_error = Exn RecursionError ''maximum recursion depth exceeded''"

fun scan_once :: "nat \<Rightarrow> (pystr \<Rightarrow> pystr) \<Rightarrow> pystr \<Rightarrow> exn + pyval \<times> pystr"
and JSONArray_loop :: "nat \<Rightarrow> (pystr \<Rightarrow> pystr) \<Rightarrow> pystr \<Rightarrow> exn + pyval list \<times> pystr"
and JSONObject_loop :: "nat \<Rightarrow> (pystr \<Rightarrow> pystr) \<Rightarrow> pystr \<Rightarrow> exn + (pystr \<times> pyval) list \<times> pystr"
where
  "scan_once 0 parse_float s = Inl recursion_error"
| "scan_once (Suc depth) parse_float s =
     (case s of
        [] \<Rightarrow> Inl (json_error ''Expecting value'')
      | nextchar # rest \<Rightarrow>
          if nextchar = 0x22 then
            (case scanstring rest of
               Inl e \<Rightarrow> Inl e
             | Inr (str, end) \<Rightarrow> Inr (PStr str, end))
          else if nextchar = 0x7B then
            (case skip_ws rest of
               [] \<Rightarrow> Inl (json_error ''Expecting property name enclosed in double quotes'')
             | c # end \<Rightarrow>
                 if c = 0x7D then Inr (PDict [], end)
                 else if c \<noteq> 0x22
                 then Inl (json_error ''Expecting property name enclosed in double quotes'')
                 else (case JSONObject_loop depth parse_float end of
                         Inl e \<Rightarrow> Inl e
                       | Inr (pairs, end') \<Rightarrow> Inr (PDict (dict_items pairs), end')))
          else if nextchar = 0x5B then
            (let end = skip_ws rest in
             if take 1 end = [0x5D] then Inr (PList [], drop 1 end)
             else (case JSONArray_loop depth parse_float end of
                     Inl e \<Rightarrow> Inl e
                   | Inr (values, end') \<Rightarrow> Inr (PList values, end')))
          else if nextchar = 0x6E \<and> take 4 s = ustr ''null'' then Inr (PNone, drop 4 s)
          else if nextchar = 0x74 \<and> take 4 s = ustr ''true'' then Inr (PBool True, drop 4 s)
          else if nextchar = 0x66 \<and> take 5 s = ustr ''false'' then Inr (PBool False, drop 5 s)
          else
            (case match_number s of
               Some (integer, fraction, exponent, end) \<Rightarrow>
                 if fraction \<noteq> [] \<or> exponent \<noteq> [] then Inr (PFloat (parse_float (integer @ fraction @ exponent)), end)
                 else (case parse_int integer of
                         Inl e \<Rightarrow> Inl e
                       | Inr res \<Rightarrow> Inr (PInt res, end))
             | None \<Rightarrow>
                 if nextchar = 0x4E \<and> take 3 s = ustr ''NaN'' then Inr (PFloat (ustr ''nan''), drop 3 s)
                 else if nextchar = 0x49 \<and> take 8 s = ustr ''Infinity''
                 then Inr (PFloat (ustr ''inf''), drop 8 s)
                 else if nextchar = 0x2D \<and> take 9 s = ustr ''-Infinity''
                 then Inr (PFloat (ustr ''-inf''), drop 9 s)
                 else Inl (json_error ''Expecting value'')))"
| "JSONArray_loop 0 parse_float s = Inl recursion_error"
| "JSONArray_loop (Suc depth) parse_float s =
     (case scan_once depth parse_float s of
        Inl e \<Rightarrow> Inl e
      | Inr (value, end) \<Rightarrow>
          (case skip_ws end of
             [] \<Rightarrow> Inl (json_error (''Expecting '' @ quoted '','' @ '' delimiter''))
           | nextchar # end1 \<Rightarrow>
               if nextchar = 0x5D then Inr ([value], end1)
               else if nextchar \<noteq> 0x2C then Inl (json_error (''Expecting '' @ quoted '','' @ '' delimiter''))
               else (case JSONArray_loop depth parse_float (skip_ws end1) of
                       Inl e \<Rightarrow> Inl e
                     | Inr (values, end2) \<Rightarrow> Inr (value # values, end2))))"
| "JSONObject_loop 0 parse_float s = Inl recursion_error"
| "JSONObject_loop (Suc depth) parse_float s =
     (case scanstring s of
        Inl e \<Rightarrow> Inl e
      | Inr (key, end) \<Rightarrow>
          (case skip_ws end of
             [] \<Rightarrow> Inl (json_error (''Expecting '' @ quoted '':'' @ '' delimiter''))
           | colon # end1 \<Rightarrow>
               if colon \<noteq> 0x3A then Inl (json_error (''Expecting '' @ quoted '':'' @ '' delimiter''))
               else
                 (case scan_once depth parse_float (skip_ws end1) of
                    Inl e \<Rightarrow> Inl e
                  | Inr (value, end2) \<Rightarrow>
                      (case skip_ws end2 of
                         [] \<Rightarrow> Inl (json_error (''Expecting '' @ quoted '','' @ '' delimiter''))
                       | nextchar # end3 \<Rightarrow>
                           if nextchar = 0x7D then Inr ([(key, value)], end3)
                           else if nextchar \<noteq> 0x2C then Inl (json_error (''Expecting '' @ quoted '','' @ '' delimiter''))
                           else
                             (case skip_ws end3 of
                                [] \<Rightarrow> Inl (json_error
                                        ''Expecting property name enclosed in double quotes'')
                              | quote # end4 \<Rightarrow>
                                  if quote \<noteq> 0x22
                                  then Inl (json_error
                                         ''Expecting property name enclosed in double quotes'')
                                  else (case JSONObject_loop depth parse_float end4 of
                                          Inl e \<Rightarrow> Inl e
                                        | Inr (pairs, end5) \<Rightarrow>
                                            Inr ((key, value) # pairs, end5)))))))"

definition decode :: "(pystr \<Rightarrow> pystr) \<Rightarrow> pystr \<Rightarrow> exn + pyval" where
  "decode parse_float s =
     (case scan_once (2 * length s + 2) parse_float (skip_ws s) of
        Inl e \<Rightarrow> Inl e
      | Inr (obj, end) \<Rightarrow>
          if skip_ws end \<noteq> [] then Inl (json_error ''Extra data'') else Inr obj)"

definition json_loads :: "(pystr \<Rightarrow> pystr) \<Rightarrow> pyval \<Rightarrow> exn + pyval" where
  "json_loads parse_float s =
     (case s of
        PStr text \<Rightarrow>
          if take 1 text = [0xFEFF]
          then Inl (json_error ''Unexpected UTF-8 BOM (decode using utf-8-sig)'')
          else decode parse_float text
      | _ \<Rightarrow>
          Inl (Exn TypeError (''the JSON object must be str, bytes or bytearray, not ''
                               @ type_name s)))"

definition safe_json_loads :: "(pystr \<Rightarrow> pystr) \<Rightarrow> pyval \<Rightarrow> pyval \<Rightarrow> exn + pyval" where
  "safe_json_loads parse_float json_string dflt =
     (case json_loads parse_float json_string of
        Inr obj \<Rightarrow> Inr obj
      | Inl e \<Rightarrow> if caught_by e [JSONDecodeError, TypeError] then Inr dflt else Inl e)"


section \<open>Values of the JSON data model\<close>

text \<open>
  \<open>json_value\<close> holds of the values the encoder represents natively and the decoder gives
  back: \<open>None\<close>, booleans, integers within the conversion limit, strings of Unicode scalar
  values (no surrogate code points), lists, and mappings with distinct keys. Tuples (encoded
  as arrays), floats (not modelled) and objects encoded through \<open>default=str\<close> are not.
  The predicates after it state what the decoder does on a text: \<open>number_end\<close> holds of a
  continuation that cannot prolong a number, \<open>value_start\<close> of a text that begins as a
  JSON value does.
\<close>

definition str_ok :: "nat \<Rightarrow> bool" where
  "str_ok c = (c < 0x110000 \<and> \<not> (0xD800 \<le> c \<and> c \<le> 0xDFFF))"

definition number_end :: "pystr \<Rightarrow> bool" where
  "number_end rest =
     (case rest of [] \<Rightarrow> True | c # r \<Rightarrow> \<not> is_digit c \<and> c \<noteq> 0x2E \<and> c \<noteq> 0x65 \<and> c \<noteq> 0x45)"

fun json_value :: "pyval \<Rightarrow> bool"
and json_values :: "pyval list \<Rightarrow> bool"
and json_items :: "(pystr \<times> pyval) list \<Rightarrow> bool"
where
  "json_value PNone = True"
| "json_value (PBool b) = True"
| "json_value (PInt i) = (length (decimal (nat \<bar>i\<bar>)) \<le> int_max_str_digits)"
| "json_value (PFloat r) = False"
| "json_value (PStr s) = list_all str_ok s"
| "json_value (PList lst) = json_values lst"
| "json_value (PTuple lst) = False"
| "json_value (PDict dct) = (distinct (map fst dct) \<and> json_items dct)"
| "json_value (PObj c t) = False"
| "json_values [] = True"
| "json_values (v # lst) = (json_value v \<and> json_values lst)"
| "json_items [] = True"
| "json_items ((key, v) # items) = (list_all str_ok key \<and> json_value v \<and> json_items items)"

definition value_start :: "pystr \<Rightarrow> bool" where
  "value_start t =
     (case t of
        [] \<Rightarrow> False
      | c # r \<Rightarrow> c = 0x22 \<or> c = 0x5B \<or> c = 0x7B \<or> c = 0x6E \<or> c = 0x74 \<or> c = 0x66
                 \<or> c = 0x2D \<or> is_digit c)"

definition decodes_value :: "(pystr \<Rightarrow> pystr) \<Rightarrow> pyval \<Rightarrow> pystr \<Rightarrow> bool" where
  "decodes_value pf v t =
     (value_start t \<and>
      (\<forall>d rest. length t \<le> d \<longrightarrow> number_end rest \<longrightarrow> scan_once d pf (t @ rest) = Inr (v, rest)))"

definition decodes_list :: "(pystr \<Rightarrow> pystr) \<Rightarrow> pyval list \<Rightarrow> pystr \<Rightarrow> bool" where
  "decodes_list pf lst inner =
     (value_start inner \<and>
      (\<forall>d rest. length inner < d \<longrightarrow> JSONArray_loop d pf (inner @ 0x5D # rest) = Inr (lst, rest)))"

definition decodes_dict :: "(pystr \<Rightarrow> pystr) \<Rightarrow> (pystr \<times> pyval) list \<Rightarrow> pystr \<Rightarrow> bool" where
  "decodes_dict pf items inner =
     (\<forall>d rest. length inner < d \<longrightarrow> JSONObject_loop d pf (inner @ 0x7D # rest) = Inr (items, rest))"


section \<open>The sample handler (sample-lambda-project/lambda\_function.py)\<close>

definition framework_version :: pystr where
  "framework_version = ustr ''0.3.11''"

record processed =
  user_id :: pyval
  action :: pyval
  raw_body :: pyval

record response =
  statusCode :: int
  headers :: "(pystr \<times> pystr) list"
  body :: pystr

fun is_str :: "pyval \<Rightarrow> bool" where
  "is_str (PStr s) = True"
| "is_str v = False"

text \<open>\<open>event.get("body", "{}")\<close>: the method of a \<open>dict\<close>; AttributeError on a value
  without it.\<close>

definition event_get_body :: "pyval \<Rightarrow> exn + pyval" where
  "event_get_body event =
     (case event of
        PDict items \<Rightarrow>
          Inr (case map_of items (ustr ''body'') of Some v \<Rightarrow> v | None \<Rightarrow> PStr (ustr ''{}''))
      | _ \<Rightarrow> Inl (no_attribute event ''get''))"

definition process_event_data :: "(pystr \<Rightarrow> pystr) \<Rightarrow> pyval \<Rightarrow> exn + processed" where
  "process_event_data parse_float event =
     (case event_get_body event of
        Inl e \<Rightarrow> Inl e
      | Inr body0 \<Rightarrow>
          (case (if is_str body0 then safe_json_loads parse_float body0 (PDict []) else Inr body0) of
             Inl e \<Rightarrow> Inl e
           | Inr body' \<Rightarrow>
               (case get_nested_value body' (ustr ''user.id'') (PStr (ustr ''anonymous'')) (ustr ''.'') of
                  Inl e \<Rightarrow> Inl e
                | Inr user_id' \<Rightarrow>
                    (case get_nested_value body' (ustr ''request.action'') (PStr (ustr ''unknown''))
                            (ustr ''.'') of
                       Inl e \<Rightarrow> Inl e
                     | Inr action' \<Rightarrow>
                         (case flatten_dict body' [] (ustr ''.'') of
                            Inl e \<Rightarrow> Inl e
                          | Inr flat_data \<Rightarrow>
                              Inr \<lparr>user_id = user_id', action = action', raw_body = body'\<rparr>)))))"

text \<open>\<open>LambdaResponse(...).model_dump()\<close>: the fields of the model, in the order of their
  declaration.\<close>

definition model_dump :: "int \<Rightarrow> pystr \<Rightarrow> (pystr \<times> pyval) list \<Rightarrow> pyval" where
  "model_dump status_code message data =
     PDict [(ustr ''status_code'', PInt status_code), (ustr ''message'', PStr message),
            (ustr ''data'', PDict data)]"

definition json_headers :: "(pystr \<times> pystr) list" where
  "json_headers = [(ustr ''Content-Type'', ustr ''application/json'')]"

definition handle_request :: "(pystr \<Rightarrow> pystr) \<Rightarrow> pyval \<Rightarrow> exn + response" where
  "handle_request parse_float event =
     (case process_event_data parse_float event of
        Inl e \<Rightarrow> Inl e
      | Inr processed \<Rightarrow>
          (case safe_json_dumps
                  (model_dump 200 (ustr ''Request processed successfully'')
                     [(ustr ''user_id'', user_id processed), (ustr ''action'', action processed),
                      (ustr ''framework_version'', PStr framework_version)])
                  (ustr ''{}'') of
             Inl e \<Rightarrow> Inl e
           | Inr text \<Rightarrow> Inr \<lparr>statusCode = 200, headers = json_headers, body = text\<rparr>))"

definition handle_error :: "exn \<Rightarrow> exn + response" where
  "handle_error e =
     (case safe_json_dumps
             (PDict [(ustr ''error'', PStr (exn_str e)),
                     (ustr ''message'', PStr (ustr ''Internal server error''))])
             (ustr ''{}'') of
        Inl e' \<Rightarrow> Inl e'
      | Inr text \<Rightarrow> Inr \<lparr>statusCode = 500, headers = json_headers, body = text\<rparr>)"

definition lambda_handler :: "(pystr \<Rightarrow> pystr) \<Rightarrow> pyval \<Rightarrow> pyval \<Rightarrow> exn + response" where
  "lambda_handler parse_float event context =
     (case safe_json_dumps event (ustr ''{}'') of
        Inl e \<Rightarrow> Inl e
      | Inr logged \<Rightarrow>
          (case handle_request parse_float event of
             Inr r \<Rightarrow> Inr r
           | Inl e \<Rightarrow> if caught_by e [Exception] then handle_error e else Inl e))"

text \<open>Values for the examples.\<close>

definition colliding :: "(pystr \<times> pyval) list" where
  "colliding = [(ustr ''a.b'', PInt 1), (ustr ''a'', PDict [(ustr ''b'', PInt 2)])]"

definition nested_example :: "(pystr \<times> pyval) list" where
  "nested_example =
     [(ustr ''a'', PDict [(ustr ''b'', PDict [(ustr ''c'', PInt 1)])]), (ustr ''x'', PInt 2)]"

definition levels_example :: pyval where
  "levels_example =
     PDict [(ustr ''level1'', PDict [(ustr ''level2'', PDict [(ustr ''key'', PStr (ustr ''value''))])])]"


definition sample_event :: pyval where
  "sample_event =
     PDict [(ustr ''body'',
             PStr (ustr ''{\"user\":{\"id\":\"u1\"},\"request\":{\"action\":\"go\"}}''))]"

definition sample_body :: pystr where
  "sample_body = ustr (''{\"status_code\": 200, \"message\": \"Request processed successfully\", ''
     @ ''\"data\": {\"user_id\": \"u1\", \"action\": \"go\", \"framework_version\": \"0.3.11\"}}'')"

definition sample_decoded :: pyval where
  "sample_decoded =
     PDict [(ustr ''status_code'', PInt 200),
            (ustr ''message'', PStr (ustr ''Request processed successfully'')),
            (ustr ''data'', PDict [(ustr ''user_id'', PStr (ustr ''u1'')),
                                   (ustr ''action'', PStr (ustr ''go'')),
                                   (ustr ''framework_version'', PStr (ustr ''0.3.11''))])]"






definition sample_parsed :: pyval where
  "sample_parsed =
     PDict [(ustr ''user'', PDict [(ustr ''id'', PStr (ustr ''u1''))]),
            (ustr ''request'', PDict [(ustr ''action'', PStr (ustr ''go''))])]"

definition long_integer :: pystr where
  "long_integer = replicate 4301 0x31"


section \<open>Properties of the retry decorator\<close>





text \<open>
  Claim C7. An operation that raises a retryable exception on its first two calls and
  returns on the third, wrapped with \<open>retry(max_attempts=3, delay=1.0, backoff=2.0)\<close>:
  the wrapper returns the value of the third call, after exactly two sleeps, of 1.0
  and then 2.0 seconds, and three calls.
\<close>

theorem retry_two_failures_then_success:
  assumes "outcome func w = Inl e1" and "exceptions e1"
    and "outcome func (after_calls func 1 w) = Inl e2" and "exceptions e2"
    and "outcome func (after_calls func 2 w) = Inr v"
  shows "\<exists>st'. retry 3 1 2 exceptions func w = (Inr v, st')
           \<and> slept st' = [1, 2] \<and> calls st' = 3"
proof -
  obtain w1 where f0: "func w = (Inl e1, w1)"
    using assms(1) unfolding outcome_def by (cases "func w") auto
  obtain w2 where f1: "func w1 = (Inl e2, w2)"
    using assms(3) f0 unfolding outcome_def by (cases "func w1") auto
  obtain w3 where f2: "func w2 = (Inr v, w3)"
    using assms(5) f0 f1 unfolding outcome_def by (cases "func w2") (auto simp: numeral_2_eq_2)
  show ?thesis
    unfolding retry_def
    apply (subst retry_loop.simps, simp add: f0 assms(2))
    apply (subst retry_loop.simps, simp add: f1 assms(4))
    apply (subst retry_loop.simps, simp add: f2)
    done
qed

theorem retry_two_failures_then_success_witness:
  "outcome (flaky 2) 0 = Inl 0 \<and> outcome (flaky 2) (after_calls (flaky 2) 1 0) = Inl 1
   \<and> outcome (flaky 2) (after_calls (flaky 2) 2 0) = Inr 2
   \<and> fst (retry 3 1 2 (\<lambda>e. True) (flaky 2) 0) = Inr 2
   \<and> slept (snd (retry 3 1 2 (\<lambda>e. True) (flaky 2) 0)) = [1, 2]
   \<and> calls (snd (retry 3 1 2 (\<lambda>e. True) (flaky 2) 0)) = 3"
proof -
  have o0: "outcome (flaky 2) 0 = Inl 0"
    and o1: "outcome (flaky 2) (after_calls (flaky 2) 1 0) = Inl 1"
    and o2: "outcome (flaky 2) (after_calls (flaky 2) 2 0) = Inr 2"
    by (simp_all add: outcome_def flaky_def numeral_2_eq_2)
  from retry_two_failures_then_success [of "flaky 2" 0 0 "\<lambda>e. True" 1 2, OF o0 _ o1 _ o2]
  show ?thesis
    using o0 o1 o2 by auto
qed

text \<open>
  Claim C9. With \<open>max_attempts \<le> 0\<close> the loop body never runs: the operation is not
  called, nothing is slept, and the wrapper ends in \<open>raise last_exception\<close> with
  \<open>last_exception\<close> still \<open>None\<close>, which raises; no value is returned.
\<close>

theorem retry_without_attempts_raises:
  assumes "max_attempts \<le> 0"
  shows "retry max_attempts delay backoff exceptions func w =
           (Inl RaiseNone,
            \<lparr>world = w, current_delay = delay, last_exception = None, calls = 0, slept = []\<rparr>)"
  using assms unfolding retry_def by (subst retry_loop.simps) simp

theorem retry_without_attempts_raises_witness:
  "(0::int) \<le> 0 \<and> (-2::int) \<le> 0
   \<and> fst (retry 0 1 2 (\<lambda>e. True) (flaky 0) 0) = Inl RaiseNone
   \<and> calls (snd (retry 0 1 2 (\<lambda>e. True) (flaky 0) 0)) = 0
   \<and> fst (retry (-2) 1 2 (\<lambda>e. True) (flaky 0) 0) = Inl RaiseNone
   \<and> outcome (flaky 0) 0 = Inr 0"
  using retry_without_attempts_raises [of 0 1 2 "\<lambda>e. True" "flaky 0" 0]
    retry_without_attempts_raises [of "-2" 1 2 "\<lambda>e. True" "flaky 0" 0]
  by (simp add: outcome_def flaky_def)

section \<open>Properties of the list chunker\<close>

lemma chunk_list_example:
  "chunk_list [1, 2, 3, 4, 5 :: int] 2 = Inr [[1, 2], [3, 4], [5]]"
  by (simp add: chunk_list_def py_range_def range_up.simps py_slice_def slice_bound_def)

lemma chunk_list_zero: "chunk_list lst 0 = Inl RangeStepZero"
  by (simp add: chunk_list_def py_range_def)

text \<open>
  Claim C10. For every list and every negative \<open>chunk_size\<close>, \<open>chunk_list\<close> returns the
  empty list and does not raise: \<open>range(0, len(lst), chunk_size)\<close> is empty, since a
  range with a negative step runs only while the index is above the stop.
\<close>

theorem chunk_list_negative_size:
  assumes "chunk_size < 0"
  shows "chunk_list lst chunk_size = Inr []"
  using assms by (simp add: chunk_list_def py_range_def range_down.simps)

theorem chunk_list_negative_size_witness:
  "(-2::int) < 0 \<and> chunk_list [1, 2, 3 :: int] (-2) = Inr []"
  using chunk_list_negative_size [of "-2" "[1, 2, 3 :: int]"] by simp


section \<open>Properties of the dictionary flattener\<close>

lemma leaves_path_nonempty: "(p, v) \<in> set (leaves d) \<Longrightarrow> p \<noteq> []"
  by (induction d rule: leaves.induct) auto

lemma join_path_Cons: "p \<noteq> [] \<Longrightarrow> join_path sep (k # p) = k @ sep @ join_path sep p"
  by (cases p) auto

lemma update_fresh: "k \<notin> fst ` set d \<Longrightarrow> AList.update k v d = d @ [(k, v)]"
  by (induction d) auto

lemma fold_update_distinct:
  "distinct (map fst items) \<Longrightarrow> fst ` set acc \<inter> fst ` set items = {} \<Longrightarrow>
   fold (\<lambda>(k, v) d. AList.update k v d) items acc = acc @ items"
proof (induction items arbitrary: acc)
  case Nil
  then show ?case by simp
next
  case (Cons kv items)
  obtain k v where kv: "kv = (k, v)" by (cases kv)
  have fresh: "k \<notin> fst ` set acc" using Cons.prems(2) kv by auto
  have "fst ` set (acc @ [(k, v)]) \<inter> fst ` set items = {}"
    using Cons.prems kv by (auto simp: image_iff)
  with Cons.IH [of "acc @ [(k, v)]"] Cons.prems(1) kv fresh
  show ?case by (simp add: update_fresh)
qed

lemma dict_items_distinct: "distinct (map fst items) \<Longrightarrow> dict_items items = items"
  using fold_update_distinct [of items "[]"] by (simp add: dict_items_def)


lemma leaf_entries_Nil [simp]: "leaf_entries sep [] = []"
  by (simp add: leaf_entries_def)

lemma leaf_entries_dict [simp]:
  "leaf_entries sep ((k, PDict d') # rest) =
     map (\<lambda>(k', v). (k @ sep @ k', v)) (leaf_entries sep d') @ leaf_entries sep rest"
  by (auto simp: leaf_entries_def join_path_Cons dest: leaves_path_nonempty)

lemma leaf_entries_leaf [simp]:
  "\<not> is_dict v \<Longrightarrow> leaf_entries sep ((k, v) # rest) = (k, v) # leaf_entries sep rest"
  by (cases v) (simp_all add: leaf_entries_def)

lemma distinct_map_append: "distinct (map ((@) p) xs) = distinct xs"
  by (induction xs) auto

lemma distinct_prefixed:
  "distinct (map fst (map (\<lambda>(k', v). (p @ k', v)) es)) = distinct (map fst es)"
proof -
  have "map fst (map (\<lambda>(k', v). (p @ k', v)) es) = map ((@) p) (map fst es)"
    by (induction es) auto
  then show ?thesis by (simp only: distinct_map_append)
qed

lemma distinct_prefixed2:
  "distinct (map fst (map (\<lambda>(k', v). (p @ s @ k', v)) es)) = distinct (map fst es)"
  using distinct_prefixed [of "p @ s" es] by simp

lemma flatten_below:
  "parent \<noteq> [] \<longrightarrow> distinct (map fst (leaf_entries sep d)) \<longrightarrow>
     flatten_mapping d parent sep = map (\<lambda>(k, v). (parent @ sep @ k, v)) (leaf_entries sep d)"
  "parent \<noteq> [] \<longrightarrow> distinct (map fst (leaf_entries sep d)) \<longrightarrow>
     flatten_loop d parent sep = map (\<lambda>(k, v). (parent @ sep @ k, v)) (leaf_entries sep d)"
proof (induction d parent sep and d parent sep rule: flatten_mapping_flatten_loop.induct)
  case (1 d parent_key separator)
  show ?case
  proof (intro impI)
    assume p: "parent_key \<noteq> []" and d: "distinct (map fst (leaf_entries separator d))"
    with 1 have loop: "flatten_loop d parent_key separator =
        map (\<lambda>(k, v). (parent_key @ separator @ k, v)) (leaf_entries separator d)"
      by simp
    have "distinct (map fst (map (\<lambda>(k, v). (parent_key @ separator @ k, v))
             (leaf_entries separator d)))"
      using d by (simp only: distinct_prefixed2)
    then show "flatten_mapping d parent_key separator =
        map (\<lambda>(k, v). (parent_key @ separator @ k, v)) (leaf_entries separator d)"
      by (simp add: loop dict_items_distinct)
  qed
next
  case (2 parent_key separator)
  show ?case by simp
next
  case (3 k v rest parent_key separator)
  show ?case
  proof (intro impI)
    assume p: "parent_key \<noteq> []"
      and d: "distinct (map fst (leaf_entries separator ((k, v) # rest)))"
    show "flatten_loop ((k, v) # rest) parent_key separator =
        map (\<lambda>(k, v). (parent_key @ separator @ k, v))
          (leaf_entries separator ((k, v) # rest))"
    proof (cases v)
      case (PDict d')
      from d PDict have d1: "distinct (map fst (leaf_entries separator d'))"
        and d2: "distinct (map fst (leaf_entries separator rest))"
        by (simp_all add: distinct_prefixed2 del: map_map)
      have "flatten_mapping d' (parent_key @ separator @ k) separator =
          map (\<lambda>(k', v). ((parent_key @ separator @ k) @ separator @ k', v))
            (leaf_entries separator d')"
        using "3.IH"(1) [OF refl, of d'] p PDict d1 by simp
      moreover have "flatten_loop rest parent_key separator =
          map (\<lambda>(k, v). (parent_key @ separator @ k, v)) (leaf_entries separator rest)"
        using "3.IH"(2) [OF refl] p d2 by simp
      ultimately show ?thesis
        using p PDict by (simp add: case_prod_unfold)
    qed (use p d "3.IH"(2) [OF refl] in \<open>simp_all\<close>)
  qed
qed

lemma flatten_top:
  "mapping_keys_nonempty d \<Longrightarrow> distinct (map fst (leaf_entries sep d)) \<Longrightarrow>
   flatten_loop d [] sep = leaf_entries sep d"
proof (induction d)
  case Nil
  then show ?case by simp
next
  case (Cons kv d)
  obtain k v where kv: "kv = (k, v)" by (cases kv)
  from Cons.prems(1) have ne: "mapping_keys_nonempty d"
    by (simp add: mapping_keys_nonempty_def)
  show ?case
  proof (cases v)
    case (PDict d')
    from Cons.prems(1) kv PDict have k: "k \<noteq> []"
      by (simp add: mapping_keys_nonempty_def)
    from Cons.prems(2) kv PDict have d1: "distinct (map fst (leaf_entries sep d'))"
      and d2: "distinct (map fst (leaf_entries sep d))"
      by (simp_all add: distinct_prefixed2 del: map_map)
    from flatten_below(1) [of k sep d'] k d1
    have "flatten_mapping d' k sep = map (\<lambda>(k', v). (k @ sep @ k', v)) (leaf_entries sep d')"
      by simp
    with Cons.IH [OF ne d2] kv PDict show ?thesis by simp
  qed (use Cons kv ne in \<open>simp_all\<close>)
qed


text \<open>
  Claim C5, as amended. For every nested mapping whose leaves have pairwise distinct
  joined paths, and in which no key of the top level that holds a mapping is the empty
  string, and for every separator, \<open>flatten_dict\<close> has exactly one entry per leaf (a value
  that is not a mapping), in the order of the leaves, each under the path of keys from the
  root to the leaf joined by the separator, and holding the leaf.
\<close>

theorem flatten_dict_one_entry_per_leaf:
  assumes "mapping_keys_nonempty d" and "distinct (map fst (leaf_entries sep d))"
  shows "flatten_dict (PDict d) [] sep = Inr (PDict (leaf_entries sep d))"
  using assms flatten_top [OF assms]
  by (simp add: flatten_dict_def dict_items_distinct)

theorem flatten_dict_one_entry_per_leaf_witness:
  "mapping_keys_nonempty nested_example
   \<and> distinct (map fst (leaf_entries (ustr ''.'') nested_example))
   \<and> leaf_entries (ustr ''.'') nested_example = [(ustr ''a.b.c'', PInt 1), (ustr ''x'', PInt 2)]
   \<and> flatten_dict (PDict nested_example) [] (ustr ''.'') =
       Inr (PDict [(ustr ''a.b.c'', PInt 1), (ustr ''x'', PInt 2)])"
proof -
  have e: "leaf_entries (ustr ''.'') nested_example = [(ustr ''a.b.c'', PInt 1), (ustr ''x'', PInt 2)]"
    by (simp add: nested_example_def ustr_def)
  have k: "mapping_keys_nonempty nested_example"
    by (simp add: mapping_keys_nonempty_def nested_example_def ustr_def)
  have d: "distinct (map fst (leaf_entries (ustr ''.'') nested_example))"
    unfolding e by (simp add: ustr_def)
  from flatten_dict_one_entry_per_leaf [OF k d] e k d show ?thesis by simp
qed

text \<open>The claim as stated fails where two leaves have the same joined path: in
  \<open>{"a.b": 1, "a": {"b": 2}}\<close> both leaves are at \<open>a.b\<close>, and the flattened mapping has
  one entry for the two.\<close>

theorem flatten_dict_collision_counterexample:
  "leaf_entries (ustr ''.'') colliding = [(ustr ''a.b'', PInt 1), (ustr ''a.b'', PInt 2)]
   \<and> flatten_dict (PDict colliding) [] (ustr ''.'') = Inr (PDict [(ustr ''a.b'', PInt 2)])"
  by (simp add: colliding_def flatten_dict_def dict_items_def ustr_def)

lemma flatten_dict_empty_key_example:
  "leaf_entries (ustr ''.'') [([], PDict [(ustr ''a'', PInt 1)])] = [(ustr ''.a'', PInt 1)]
   \<and> flatten_dict (PDict [([], PDict [(ustr ''a'', PInt 1)])]) [] (ustr ''.'') =
       Inr (PDict [(ustr ''a'', PInt 1)])"
  by (simp add: flatten_dict_def dict_items_def ustr_def)

lemma flatten_dict_not_a_dict:
  "flatten_dict (PInt 5) [] (ustr ''.'') =
     Inl (Exn AttributeError (quoted ''int'' @ '' object has no attribute '' @ quoted ''items''))"
  by (simp add: flatten_dict_def no_attribute_def)

section \<open>Properties of the nested-path accessor\<close>

lemma split_from_nonempty: "split_from sep piece s \<noteq> []"
  by (induction sep piece s rule: split_from.induct) auto

lemma join_path_Cons': "ks \<noteq> [] \<Longrightarrow> join_path sep (k # ks) = k @ sep @ join_path sep ks"
  by (cases ks) auto

lemma join_split_from: "join_path sep (split_from sep piece s) = piece @ s"
proof (induction sep piece s rule: split_from.induct)
  case (1 sep piece)
  then show ?case by simp
next
  case (2 sep piece c cs)
  show ?case
  proof (cases "sep \<noteq> [] \<and> take (length sep) (c # cs) = sep")
    case True
    then have "c # cs = sep @ drop (length sep) (c # cs)"
      by (metis append_take_drop_id)
    with 2 True show ?thesis
      by (simp add: join_path_Cons' split_from_nonempty del: take_Cons' drop_Cons')
  next
    case False
    with 2 show ?thesis by auto
  qed
qed

lemma get_nested_loop_reaches:
  "reaches d ks v \<Longrightarrow> get_nested_loop d ks dflt = v"
  by (induction rule: reaches.induct) auto

lemma get_nested_loop_unreached:
  "(\<forall>v. \<not> reaches d ks v) \<Longrightarrow> get_nested_loop d ks dflt = dflt"
proof (induction ks arbitrary: d)
  case Nil
  then show ?case using reaches.here by blast
next
  case (Cons k ks)
  show ?case
  proof (cases d)
    case (PDict kvs)
    show ?thesis
    proof (cases "map_of kvs k")
      case None
      with PDict show ?thesis by simp
    next
      case (Some v')
      have "\<forall>v. \<not> reaches v' ks v"
        using Cons.prems PDict Some reaches.step by blast
      from Cons.IH [OF this] PDict Some show ?thesis by simp
    qed
  qed simp_all
qed

text \<open>
  Claim C6. For every value \<open>d\<close>, path string, default and non-empty separator (the
  default one is \<open>.\<close>), \<open>get_nested_value\<close> does not raise; it returns the value reached
  by descending through \<open>d\<close> along the keys the path splits into, when every step finds
  its key inside a mapping, and the default when there is no such value: a key is absent,
  or a value on the way is not a mapping.
\<close>

theorem get_nested_value_descends:
  assumes "separator \<noteq> []"
  shows "(reaches d (split_from separator [] key_path) v \<longrightarrow>
            get_nested_value d key_path dflt separator = Inr v)
       \<and> ((\<forall>v. \<not> reaches d (split_from separator [] key_path) v) \<longrightarrow>
            get_nested_value d key_path dflt separator = Inr dflt)"
  using assms
  by (simp add: get_nested_value_def str_split_def get_nested_loop_reaches
        get_nested_loop_unreached)

lemma reaches_cases_simps:
  "reaches d [] v \<longleftrightarrow> v = d"
  "reaches d (k # ks) v \<longleftrightarrow> (\<exists>kvs v'. d = PDict kvs \<and> map_of kvs k = Some v' \<and> reaches v' ks v)"
  by (auto elim: reaches.cases intro: reaches.intros)

theorem get_nested_value_descends_witness:
  "ustr ''.'' \<noteq> []
   \<and> split_from (ustr ''.'') [] (ustr ''level1.level2.key'') = [ustr ''level1'', ustr ''level2'', ustr ''key'']
   \<and> reaches levels_example (split_from (ustr ''.'') [] (ustr ''level1.level2.key'')) (PStr (ustr ''value''))
   \<and> get_nested_value levels_example (ustr ''level1.level2.key'') PNone (ustr ''.'') = Inr (PStr (ustr ''value''))
   \<and> (\<forall>v. \<not> reaches levels_example (split_from (ustr ''.'') [] (ustr ''level1.level2.nokey'')) v)
   \<and> get_nested_value levels_example (ustr ''level1.level2.nokey'') (PStr (ustr ''default'')) (ustr ''.'') =
       Inr (PStr (ustr ''default''))"
proof -
  have ne: "ustr ''.'' \<noteq> []" by (simp add: ustr_def)
  have s1: "split_from (ustr ''.'') [] (ustr ''level1.level2.key'') = [ustr ''level1'', ustr ''level2'', ustr ''key'']"
    by (simp add: ustr_def)
  have s2: "split_from (ustr ''.'') [] (ustr ''level1.level2.nokey'') = [ustr ''level1'', ustr ''level2'', ustr ''nokey'']"
    by (simp add: ustr_def)
  have r1: "reaches levels_example (split_from (ustr ''.'') [] (ustr ''level1.level2.key'')) (PStr (ustr ''value''))"
    unfolding s1 by (simp add: levels_example_def reaches_cases_simps ustr_def)
  have r2: "\<forall>v. \<not> reaches levels_example (split_from (ustr ''.'') [] (ustr ''level1.level2.nokey'')) v"
    unfolding s2 by (simp add: levels_example_def reaches_cases_simps ustr_def)
  from get_nested_value_descends [OF ne, of levels_example "ustr ''level1.level2.key''" "PStr (ustr ''value'')" PNone]
    get_nested_value_descends [OF ne, of levels_example "ustr ''level1.level2.nokey''" _ "PStr (ustr ''default'')"]
    ne s1 r1 r2
  show ?thesis by blast
qed

lemma get_nested_value_empty_separator:
  "get_nested_value d key_path dflt [] = Inl (Exn ValueError ''empty separator'')"
  by (simp add: get_nested_value_def str_split_def)


section \<open>Properties of the JSON codec\<close>

lemma or_high_bits:
  fixes a :: nat
  assumes "a < 1024"
  shows "push_bit 10 k OR a = push_bit 10 k + a"
proof -
  have a: "a = take_bit 10 a" using assms by (simp add: take_bit_nat_eq_self)
  have "push_bit 10 k AND take_bit 10 a = 0"
    by (auto simp: bit_eq_iff bit_simps)
  then have "push_bit 10 k + take_bit 10 a = push_bit 10 k OR take_bit 10 a"
    by (rule disjunctive_add_eq_or)
  with a show ?thesis by simp
qed

lemma or_D800: "a < 1024 \<Longrightarrow> (0xD800::nat) OR a = 0xD800 + a"
  using or_high_bits [of a 54] by (simp add: push_bit_eq_mult)

lemma or_DC00: "a < 1024 \<Longrightarrow> (0xDC00::nat) OR a = 0xDC00 + a"
  using or_high_bits [of a 55] by (simp add: push_bit_eq_mult)

lemma and_3FF: "(a::nat) AND 0x3FF = a mod 1024"
proof -
  have m: "(0x3FF::nat) = mask 10" by (simp add: mask_eq_exp_minus_1)
  have "a AND mask 10 = take_bit 10 a" by (simp only: take_bit_eq_mask)
  then show ?thesis unfolding m by (simp add: take_bit_eq_mod del: mask_numeral)
qed

lemma surrogate_high:
  assumes "n < 0x100000"
  shows "(0xD800::nat) OR (drop_bit 10 n AND 0x3FF) = 0xD800 + n div 1024"
proof -
  have "n div 1024 < 1024" using assms by simp
  then show ?thesis
    by (simp add: and_3FF drop_bit_eq_div or_D800)
qed

lemma surrogate_low: "(0xDC00::nat) OR (n AND 0x3FF) = 0xDC00 + n mod 1024"
  by (simp add: and_3FF or_DC00)

lemma surrogate_join:
  fixes n :: nat
  shows "push_bit 10 (n div 1024) OR (n mod 1024) = n"
  using or_high_bits [of "n mod 1024" "n div 1024"]
  by (simp add: push_bit_eq_mult)

lemma hex_value_hex_digit: "d < 16 \<Longrightarrow> hex_value (hex_digit d) = Some d"
  by (auto simp: hex_value_def hex_digit_def)

lemma hex4_value:
  fixes n :: nat
  assumes "n < 0x10000"
  shows "((n div 4096 mod 16 * 16 + n div 256 mod 16) * 16 + n div 16 mod 16) * 16 + n mod 16 = n"
proof -
  define a where "a = n div 16"
  define b where "b = a div 16"
  define c where "c = b div 16"
  have b: "n div 256 = b" and c: "n div 4096 = c"
    by (simp_all add: a_def b_def c_def div_mult2_eq)
  have "c < 16" using assms unfolding c [symmetric] by simp
  then have c16: "c mod 16 = c" by simp
  define x where "x = n mod 16"
  define y where "y = a mod 16"
  define z where "z = b mod 16"
  have n: "16 * a + x = n" and a: "16 * b + y = a" and b': "16 * c + z = b"
    by (simp_all add: a_def b_def c_def x_def y_def z_def)
  have "((c * 16 + z) * 16 + y) * 16 + x = 16 * (16 * (16 * c + z) + y) + x"
    by (simp add: algebra_simps)
  also have "\<dots> = n"
    by (simp only: b' a n)
  finally show ?thesis
    unfolding b c c16 a_def [symmetric] x_def y_def z_def .
qed

lemma decode_hex4: "n < 0x10000 \<Longrightarrow> decode_uXXXX (hex4 n @ t) = Some n"
  using hex4_value [of n]
  by (simp add: decode_uXXXX_def hex4_def hex_value_hex_digit)

lemma scanstring_u_step:
  "decode_uXXXX s1 = Some uni \<Longrightarrow> \<not> (0xD800 \<le> uni \<and> uni \<le> 0xDBFF) \<Longrightarrow>
   scanstring (0x5C # 0x75 # s1) = append_char uni (scanstring (drop 4 s1))"
  by auto

lemma scanstring_pair_step:
  "decode_uXXXX s1 = Some uni \<Longrightarrow> 0xD800 \<le> uni \<Longrightarrow> uni \<le> 0xDBFF \<Longrightarrow>
   take 2 (drop 4 s1) = [0x5C, 0x75] \<Longrightarrow> decode_uXXXX (drop 6 s1) = Some uni2 \<Longrightarrow>
   0xDC00 \<le> uni2 \<Longrightarrow> uni2 \<le> 0xDFFF \<Longrightarrow>
   scanstring (0x5C # 0x75 # s1) =
     append_char (0x10000 + (push_bit 10 (uni - 0xD800) OR (uni2 - 0xDC00)))
       (scanstring (drop 10 s1))"
  by simp

lemma length_hex4 [simp]: "length (hex4 n) = 4"
  by (simp add: hex4_def)

lemma length_u_escape [simp]: "length (u_escape n) = 6"
  by (simp add: u_escape_def)

lemma scanstring_u_escape:
  assumes "n < 0x10000" and "\<not> (0xD800 \<le> n \<and> n \<le> 0xDBFF)"
  shows "scanstring (u_escape n @ t) = append_char n (scanstring t)"
proof -
  have "scanstring (u_escape n @ t) = scanstring (0x5C # 0x75 # (hex4 n @ t))"
    by (simp add: u_escape_def)
  also have "\<dots> = append_char n (scanstring (drop 4 (hex4 n @ t)))"
    by (rule scanstring_u_step [OF decode_hex4 [OF assms(1)] assms(2)])
  finally show ?thesis by simp
qed

lemma scanstring_u_escape_pair:
  assumes "n < 0x100000"
  shows "scanstring (u_escape (0xD800 + n div 1024) @ u_escape (0xDC00 + n mod 1024) @ t) =
           append_char (0x10000 + n) (scanstring t)"
proof -
  let ?s1 = "0xD800 + n div 1024" and ?s2 = "0xDC00 + n mod 1024"
  let ?rest = "hex4 ?s1 @ u_escape ?s2 @ t"
  have d: "n div 1024 < 1024" using assms by simp
  have h1: "decode_uXXXX ?rest = Some ?s1"
    using d by (intro decode_hex4) simp
  have dr6: "drop 6 ?rest = hex4 ?s2 @ t"
    by (simp add: u_escape_def)
  have h2: "decode_uXXXX (drop 6 ?rest) = Some ?s2"
    unfolding dr6 by (intro decode_hex4) simp
  have tk: "take 2 (drop 4 ?rest) = [0x5C, 0x75]"
    by (simp add: u_escape_def)
  have "scanstring (u_escape ?s1 @ u_escape ?s2 @ t) = scanstring (0x5C # 0x75 # ?rest)"
    by (simp add: u_escape_def)
  also have "\<dots> = append_char (0x10000 + (push_bit 10 (?s1 - 0xD800) OR (?s2 - 0xDC00)))
                     (scanstring (drop 10 ?rest))"
    using d by (intro scanstring_pair_step [OF h1 _ _ tk h2]) simp_all
  also have "push_bit 10 (?s1 - 0xD800) OR (?s2 - 0xDC00) = n"
    using surrogate_join [of n] by simp
  also have "drop 10 ?rest = t" by simp
  finally show ?thesis .
qed

lemma scanstring_escape_char:
  assumes "str_ok c"
  shows "scanstring (escape_char c @ t) = append_char c (scanstring t)"
proof -
  consider (bs) "c = 0x5C" | (qu) "c = 0x22" | (pr) "0x20 \<le> c" "c \<le> 0x7E" "c \<noteq> 0x5C" "c \<noteq> 0x22"
    | (ctl) "c = 0x08 \<or> c = 0x0C \<or> c = 0x0A \<or> c = 0x0D \<or> c = 0x09"
    | (u) "c < 0x20 \<or> 0x7E < c" "c < 0x10000" "\<not> (c = 0x08 \<or> c = 0x0C \<or> c = 0x0A \<or> c = 0x0D \<or> c = 0x09)"
    | (big) "0x10000 \<le> c"
    by linarith
  then show ?thesis
  proof cases
    case bs
    then show ?thesis by (simp add: escape_char_def backslash_def)
  next
    case qu
    then show ?thesis by (simp add: escape_char_def backslash_def)
  next
    case pr
    then show ?thesis by (simp add: escape_char_def)
  next
    case ctl
    then show ?thesis by (auto simp: escape_char_def backslash_def)
  next
    case u
    have "\<not> (0xD800 \<le> c \<and> c \<le> 0xDBFF)" using assms by (auto simp: str_ok_def)
    from scanstring_u_escape [OF u(2) this, of t] u show ?thesis
      by (auto simp: escape_char_def simp del: scanstring.simps)
  next
    case big
    define n where "n = c - 0x10000"
    have n: "n < 0x100000" and c: "c = 0x10000 + n"
      using big assms by (simp_all add: n_def str_ok_def)
    have e: "escape_char c = u_escape (0xD800 + n div 1024) @ u_escape (0xDC00 + n mod 1024)"
      using n unfolding c
      by (simp add: escape_char_def surrogate_high surrogate_low Let_def)
    show ?thesis
      unfolding e using scanstring_u_escape_pair [OF n, of t] by (simp add: c)
  qed
qed

lemma scanstring_encoded:
  "list_all str_ok s \<Longrightarrow> scanstring (concat (map escape_char s) @ 0x22 # rest) = Inr (s, rest)"
proof (induction s)
  case Nil
  then show ?case by simp
next
  case (Cons c s)
  then show ?case
    by (simp add: scanstring_escape_char append_char_def del: scanstring.simps)
qed

lemma decimal_nonempty: "decimal n \<noteq> []"
  by (subst decimal.simps) simp

lemma decimal_digits: "x \<in> set (decimal n) \<Longrightarrow> is_digit x"
proof (induction n rule: decimal.induct)
  case (1 n)
  then show ?case
    by (subst (asm) (2) decimal.simps) (auto simp: is_digit_def split: if_splits)
qed

lemma decimal_small: "n < 10 \<Longrightarrow> decimal n = [0x30 + n]"
  by (subst decimal.simps) simp

lemma decimal_hd: "0 < n \<Longrightarrow> 0x31 \<le> hd (decimal n) \<and> hd (decimal n) \<le> 0x39"
proof (induction n rule: decimal.induct)
  case (1 n)
  show ?case
  proof (cases "n < 10")
    case True
    with 1 show ?thesis by (simp add: decimal_small)
  next
    case False
    then have "0 < n div 10" by simp
    with 1 False have "0x31 \<le> hd (decimal (n div 10)) \<and> hd (decimal (n div 10)) \<le> 0x39"
      by simp
    moreover have "decimal n = decimal (n div 10) @ [0x30 + n mod 10]"
      using False by (subst decimal.simps) simp
    ultimately show ?thesis by (simp add: decimal_nonempty)
  qed
qed

lemma digits_value_snoc: "digits_value (ds @ [d]) = 10 * digits_value ds + (d - 0x30)"
  by (simp add: digits_value_def)

lemma digits_value_decimal: "digits_value (decimal n) = n"
proof (induction n rule: decimal.induct)
  case (1 n)
  show ?case
  proof (cases "n < 10")
    case True
    then show ?thesis by (simp add: decimal_small digits_value_def)
  next
    case False
    then have "decimal n = decimal (n div 10) @ [0x30 + n mod 10]"
      by (subst decimal.simps) simp
    with 1 False show ?thesis by (simp add: digits_value_snoc)
  qed
qed

lemma takeWhile_digits:
  "(\<And>x. x \<in> set ds \<Longrightarrow> is_digit x) \<Longrightarrow> number_end rest \<Longrightarrow>
   takeWhile is_digit (ds @ rest) = ds \<and> dropWhile is_digit (ds @ rest) = rest"
  by (cases rest) (auto simp: number_end_def takeWhile_append2 dropWhile_append2)

lemma match_tail: "number_end rest \<Longrightarrow> match_frac rest = ([], rest) \<and> match_exp rest = ([], rest)"
  by (cases rest) (auto simp: number_end_def match_frac_def match_exp_def)

lemma match_number_decimal:
  assumes "number_end rest"
  shows "match_number (decimal n @ rest) = Some (decimal n, [], [], rest)"
proof (cases "n = 0")
  case True
  then show ?thesis
    using match_tail [OF assms] by (simp add: decimal_small match_number_def)
next
  case False
  obtain c ds where d: "decimal n = c # ds"
    using decimal_nonempty [of n] by (cases "decimal n") auto
  from False decimal_hd [of n] d have c: "0x31 \<le> c" "c \<le> 0x39" by simp_all
  have ds: "\<And>x. x \<in> set ds \<Longrightarrow> is_digit x"
    using decimal_digits [of _ n] d by simp
  from takeWhile_digits [OF ds assms] match_tail [OF assms] c show ?thesis
    by (simp add: d match_number_def)
qed

lemma match_number_negative:
  assumes "number_end rest"
  shows "match_number (0x2D # decimal n @ rest) = Some (0x2D # decimal n, [], [], rest)"
proof (cases "n = 0")
  case True
  then show ?thesis
    using match_tail [OF assms] by (simp add: decimal_small match_number_def)
next
  case False
  obtain c ds where d: "decimal n = c # ds"
    using decimal_nonempty [of n] by (cases "decimal n") auto
  from False decimal_hd [of n] d have c: "0x31 \<le> c" "c \<le> 0x39" by simp_all
  have ds: "\<And>x. x \<in> set ds \<Longrightarrow> is_digit x"
    using decimal_digits [of _ n] d by simp
  from takeWhile_digits [OF ds assms] match_tail [OF assms] c show ?thesis
    by (simp add: d match_number_def)
qed

lemma decimal_not_minus: "take 1 (decimal n) \<noteq> [0x2D]"
proof -
  obtain c ds where d: "decimal n = c # ds"
    using decimal_nonempty [of n] by (cases "decimal n") auto
  with decimal_digits [of c n] show ?thesis by (auto simp: is_digit_def)
qed

lemma parse_int_decimal:
  "length (decimal n) \<le> int_max_str_digits \<Longrightarrow> parse_int (decimal n) = Inr (int n)"
  using decimal_not_minus [of n] by (simp add: parse_int_def digits_value_decimal Let_def)

lemma parse_int_negative:
  "length (decimal n) \<le> int_max_str_digits \<Longrightarrow> parse_int (0x2D # decimal n) = Inr (- int n)"
  by (simp add: parse_int_def digits_value_decimal Let_def)

lemma scan_once_number:
  assumes "c = 0x2D \<or> is_digit c" and "match_number (c # s) = Some (integer, [], [], end)"
  shows "scan_once (Suc d) pf (c # s) =
           (case parse_int integer of Inl e \<Rightarrow> Inl e | Inr res \<Rightarrow> Inr (PInt res, end))"
  using assms by (auto simp: is_digit_def)

lemma ustr_simps [simp]:
  "ustr [] = []" "ustr (c # cs) = of_char c # ustr cs"
  by (simp_all add: ustr_def)

lemma skip_ws_simps [simp]:
  "skip_ws [] = []"
  "skip_ws (0x20 # s) = skip_ws s"
  "\<not> is_ws c \<Longrightarrow> skip_ws (c # s) = c # s"
  by (simp_all add: skip_ws_def is_ws_def)

lemma not_ws [simp]:
  "\<not> is_ws 0x22" "\<not> is_ws 0x2C" "\<not> is_ws 0x3A" "\<not> is_ws 0x5D" "\<not> is_ws 0x7D"
  by (simp_all add: is_ws_def)

lemma number_end_simps [simp]:
  "number_end []" "number_end (0x2C # r)" "number_end (0x5D # r)" "number_end (0x7D # r)"
  by (simp_all add: number_end_def is_digit_def)

lemma value_start_skip_ws: "value_start t \<Longrightarrow> skip_ws (t @ r) = t @ r"
  by (cases t) (auto simp: value_start_def skip_ws_def is_ws_def is_digit_def)

lemma value_start_not_close: "value_start t \<Longrightarrow> take 1 (t @ r) \<noteq> [0x5D]"
  by (cases t) (auto simp: value_start_def is_digit_def)

lemma value_start_nonempty: "value_start t \<Longrightarrow> t \<noteq> []"
  by (auto simp: value_start_def)

lemma scan_once_string:
  "scan_once (Suc d) pf (0x22 # rest) =
     (case scanstring rest of Inl e \<Rightarrow> Inl e | Inr (str, end) \<Rightarrow> Inr (PStr str, end))"
  by simp

lemma scan_once_object:
  "scan_once (Suc d) pf (0x7B # rest) =
     (case skip_ws rest of
        [] \<Rightarrow> Inl (json_error ''Expecting property name enclosed in double quotes'')
      | c # end \<Rightarrow>
          if c = 0x7D then Inr (PDict [], end)
          else if c \<noteq> 0x22
          then Inl (json_error ''Expecting property name enclosed in double quotes'')
          else (case JSONObject_loop d pf end of
                  Inl e \<Rightarrow> Inl e
                | Inr (pairs, end') \<Rightarrow> Inr (PDict (dict_items pairs), end')))"
  by simp

lemma scan_once_array:
  "scan_once (Suc d) pf (0x5B # rest) =
     (let end = skip_ws rest in
      if take 1 end = [0x5D] then Inr (PList [], drop 1 end)
      else (case JSONArray_loop d pf end of
              Inl e \<Rightarrow> Inl e
            | Inr (values, end') \<Rightarrow> Inr (PList values, end')))"
  by simp

lemma scan_once_constants:
  "scan_once (Suc d) pf (ustr ''null'' @ rest) = Inr (PNone, rest)"
  "scan_once (Suc d) pf (ustr ''true'' @ rest) = Inr (PBool True, rest)"
  "scan_once (Suc d) pf (ustr ''false'' @ rest) = Inr (PBool False, rest)"
  by simp_all

lemma decodes_str:
  assumes "list_all str_ok s"
  shows "decodes_value pf (PStr s) (encode_basestring_ascii s)"
  unfolding decodes_value_def
proof (intro conjI allI impI)
  show "value_start (encode_basestring_ascii s)"
    by (simp add: value_start_def encode_basestring_ascii_def)
next
  fix d rest
  assume "length (encode_basestring_ascii s) \<le> d"
  then obtain d' where d: "d = Suc d'"
    by (cases d) (simp_all add: encode_basestring_ascii_def)
  show "scan_once d pf (encode_basestring_ascii s @ rest) = Inr (PStr s, rest)"
    unfolding d using scanstring_encoded [OF assms, of rest]
    by (simp add: encode_basestring_ascii_def scan_once_string del: scan_once.simps)
qed

lemma decodes_none: "decodes_value pf PNone (ustr ''null'')"
  unfolding decodes_value_def
proof (intro conjI allI impI)
  show "value_start (ustr ''null'')" by (simp add: value_start_def)
next
  fix d rest
  assume "length (ustr ''null'') \<le> d"
  then obtain d' where d: "d = Suc d'" by (cases d) simp_all
  show "scan_once d pf (ustr ''null'' @ rest) = Inr (PNone, rest)"
    unfolding d by (rule scan_once_constants)
qed

lemma decodes_bool: "decodes_value pf (PBool b) (if b then ustr ''true'' else ustr ''false'')"
  unfolding decodes_value_def
proof (intro conjI allI impI)
  show "value_start (if b then ustr ''true'' else ustr ''false'')" by (simp add: value_start_def)
next
  fix d rest
  assume "length (if b then ustr ''true'' else ustr ''false'') \<le> d"
  then obtain d' where d: "d = Suc d'" by (cases d) (simp_all split: if_splits)
  show "scan_once d pf ((if b then ustr ''true'' else ustr ''false'') @ rest) = Inr (PBool b, rest)"
    unfolding d using scan_once_constants(2,3) [of d' pf rest] by (cases b) simp_all
qed

lemma decodes_int:
  assumes "json_value (PInt i)"
  shows "\<exists>t. int_repr i = Inr t \<and> decodes_value pf (PInt i) t"
proof -
  define n where "n = nat \<bar>i\<bar>"
  have len: "length (decimal n) \<le> int_max_str_digits"
    using assms by (simp add: n_def)
  obtain c ds where cd: "decimal n = c # ds"
    using decimal_nonempty [of n] by (cases "decimal n") auto
  have c: "is_digit c" using decimal_digits [of c n] cd by simp
  show ?thesis
  proof (cases "i < 0")
    case False
    then have i: "i = int n" by (simp add: n_def)
    have r: "int_repr i = Inr (decimal n)"
      unfolding int_repr_def Let_def n_def [symmetric] using len False by simp
    have "decodes_value pf (PInt i) (decimal n)"
      unfolding decodes_value_def
    proof (intro conjI allI impI)
      show "value_start (decimal n)" using c by (simp add: cd value_start_def)
    next
      fix d rest
      assume "length (decimal n) \<le> d" and ne: "number_end rest"
      then obtain d' where d: "d = Suc d'" by (cases d) (simp_all add: cd)
      have m: "match_number (c # ds @ rest) = Some (decimal n, [], [], rest)"
        using match_number_decimal [OF ne, of n] by (simp add: cd)
      show "scan_once d pf (decimal n @ rest) = Inr (PInt i, rest)"
        unfolding d cd using scan_once_number [OF _ m, of d' pf] c parse_int_decimal [OF len]
        by (simp add: i del: scan_once.simps)
    qed
    with r show ?thesis by blast
  next
    case True
    then have i: "i = - int n" by (simp add: n_def)
    have r: "int_repr i = Inr (0x2D # decimal n)"
      unfolding int_repr_def Let_def n_def [symmetric] using len True by simp
    have "decodes_value pf (PInt i) (0x2D # decimal n)"
      unfolding decodes_value_def
    proof (intro conjI allI impI)
      show "value_start (0x2D # decimal n)" by (simp add: value_start_def)
    next
      fix d rest
      assume "length (0x2D # decimal n) \<le> d" and ne: "number_end rest"
      then obtain d' where d: "d = Suc d'" by (cases d) simp_all
      have m: "match_number (0x2D # decimal n @ rest) = Some (0x2D # decimal n, [], [], rest)"
        by (rule match_number_negative [OF ne])
      show "scan_once d pf ((0x2D # decimal n) @ rest) = Inr (PInt i, rest)"
        unfolding d using scan_once_number [OF _ m, of d' pf] parse_int_negative [OF len]
        by (simp add: i del: scan_once.simps)
    qed
    with r show ?thesis by blast
  qed
qed

lemma decodes_list_empty: "decodes_value pf (PList []) (ustr ''[]'')"
  unfolding decodes_value_def
proof (intro conjI allI impI)
  show "value_start (ustr ''[]'')" by (simp add: value_start_def)
next
  fix d rest
  assume "length (ustr ''[]'') \<le> d"
  then obtain d' where d: "d = Suc d'" by (cases d) simp_all
  show "scan_once d pf (ustr ''[]'' @ rest) = Inr (PList [], rest)"
    unfolding d by (simp add: scan_once_array del: scan_once.simps)
qed

lemma decodes_list_nonempty:
  assumes "decodes_list pf lst inner"
  shows "decodes_value pf (PList lst) ([0x5B] @ inner @ [0x5D])"
  unfolding decodes_value_def
proof (intro conjI allI impI)
  show "value_start ([0x5B] @ inner @ [0x5D])" by (simp add: value_start_def)
next
  fix d rest
  assume "length ([0x5B] @ inner @ [0x5D]) \<le> d"
  then obtain d' where d: "d = Suc d'" and d': "length inner < d'" by (cases d) simp_all
  from assms have vs: "value_start inner"
    and loop: "JSONArray_loop d' pf (inner @ 0x5D # rest) = Inr (lst, rest)"
    using d' by (simp_all add: decodes_list_def)
  have sk: "skip_ws (inner @ 0x5D # rest) = inner @ 0x5D # rest"
    by (rule value_start_skip_ws [OF vs])
  have nc: "take 1 (inner @ 0x5D # rest) \<noteq> [0x5D]"
    by (rule value_start_not_close [OF vs])
  have "scan_once (Suc d') pf (0x5B # (inner @ 0x5D # rest)) = Inr (PList lst, rest)"
    unfolding scan_once_array Let_def sk using nc loop by simp
  then show "scan_once d pf (([0x5B] @ inner @ [0x5D]) @ rest) = Inr (PList lst, rest)"
    unfolding d by simp
qed

lemma decodes_dict_empty: "decodes_value pf (PDict []) (ustr ''{}'')"
  unfolding decodes_value_def
proof (intro conjI allI impI)
  show "value_start (ustr ''{}'')" by (simp add: value_start_def)
next
  fix d rest
  assume "length (ustr ''{}'') \<le> d"
  then obtain d' where d: "d = Suc d'" by (cases d) simp_all
  show "scan_once d pf (ustr ''{}'' @ rest) = Inr (PDict [], rest)"
    unfolding d by (simp add: scan_once_object del: scan_once.simps)
qed

lemma decodes_dict_nonempty:
  assumes "decodes_dict pf items inner" and "distinct (map fst items)"
  shows "decodes_value pf (PDict items) ([0x7B] @ (0x22 # inner) @ [0x7D])"
  unfolding decodes_value_def
proof (intro conjI allI impI)
  show "value_start ([0x7B] @ (0x22 # inner) @ [0x7D])" by (simp add: value_start_def)
next
  fix d rest
  assume "length ([0x7B] @ (0x22 # inner) @ [0x7D]) \<le> d"
  then obtain d' where d: "d = Suc d'" and d': "length inner < d'" by (cases d) simp_all
  from assms(1) d' have loop: "JSONObject_loop d' pf (inner @ 0x7D # rest) = Inr (items, rest)"
    by (simp add: decodes_dict_def)
  have "scan_once (Suc d') pf (0x7B # 0x22 # (inner @ 0x7D # rest)) = Inr (PDict items, rest)"
    unfolding scan_once_object using loop by (simp add: dict_items_distinct [OF assms(2)])
  then show "scan_once d pf (([0x7B] @ (0x22 # inner) @ [0x7D]) @ rest) = Inr (PDict items, rest)"
    unfolding d by simp
qed

lemma decodes_list_last:
  assumes "decodes_value pf v t"
  shows "decodes_list pf [v] t"
  unfolding decodes_list_def
proof (intro conjI allI impI)
  show "value_start t" using assms by (simp add: decodes_value_def)
next
  fix d rest
  assume "length t < d"
  then obtain d' where d: "d = Suc d'" and d': "length t \<le> d'" by (cases d) simp_all
  from assms d' have "scan_once d' pf (t @ 0x5D # rest) = Inr (v, 0x5D # rest)"
    by (simp add: decodes_value_def)
  then show "JSONArray_loop d pf (t @ 0x5D # rest) = Inr ([v], rest)"
    unfolding d by simp
qed

lemma decodes_list_more:
  assumes "decodes_value pf v t" and "decodes_list pf lst inner"
  shows "decodes_list pf (v # lst) (t @ ustr '', '' @ inner)"
  unfolding decodes_list_def
proof (intro conjI allI impI)
  have "value_start t" using assms(1) by (simp add: decodes_value_def)
  then show "value_start (t @ ustr '', '' @ inner)"
    by (cases t) (simp_all add: value_start_def)
next
  fix d rest
  assume "length (t @ ustr '', '' @ inner) < d"
  then obtain d' where d: "d = Suc d'" and d1: "length t \<le> d'" and d2: "length inner < d'"
    by (cases d) simp_all
  let ?r = "inner @ 0x5D # rest"
  from assms(1) d1 have v: "scan_once d' pf (t @ 0x2C # 0x20 # ?r) = Inr (v, 0x2C # 0x20 # ?r)"
    by (simp add: decodes_value_def)
  from assms(2) d2 have vs: "value_start inner"
    and loop: "JSONArray_loop d' pf ?r = Inr (lst, rest)"
    by (simp_all add: decodes_list_def)
  have sk: "skip_ws ?r = ?r" by (rule value_start_skip_ws [OF vs])
  have "JSONArray_loop (Suc d') pf (t @ 0x2C # 0x20 # ?r) = Inr (v # lst, rest)"
    using v loop sk by simp
  then show "JSONArray_loop d pf ((t @ ustr '', '' @ inner) @ 0x5D # rest) = Inr (v # lst, rest)"
    unfolding d by simp
qed

lemma decodes_dict_last:
  assumes "list_all str_ok key" and "decodes_value pf v t"
  shows "decodes_dict pf [(key, v)] (concat (map escape_char key) @ [0x22] @ ustr '': '' @ t)"
  unfolding decodes_dict_def
proof (intro allI impI)
  fix d rest
  assume "length (concat (map escape_char key) @ [0x22] @ ustr '': '' @ t) < d"
  then obtain d' where d: "d = Suc d'" and d1: "length t \<le> d'" by (cases d) simp_all
  let ?r = "t @ 0x7D # rest"
  have k: "scanstring (concat (map escape_char key) @ 0x22 # 0x3A # 0x20 # ?r) =
             Inr (key, 0x3A # 0x20 # ?r)"
    by (rule scanstring_encoded [OF assms(1)])
  have vs: "value_start t" using assms(2) by (simp add: decodes_value_def)
  have sk: "skip_ws ?r = ?r" by (rule value_start_skip_ws [OF vs])
  from assms(2) d1 have v: "scan_once d' pf ?r = Inr (v, 0x7D # rest)"
    by (simp add: decodes_value_def)
  have "JSONObject_loop (Suc d') pf (concat (map escape_char key) @ 0x22 # 0x3A # 0x20 # ?r) =
          Inr ([(key, v)], rest)"
    using k sk v by simp
  then show "JSONObject_loop d pf
               ((concat (map escape_char key) @ [0x22] @ ustr '': '' @ t) @ 0x7D # rest) =
             Inr ([(key, v)], rest)"
    unfolding d by simp
qed

lemma decodes_dict_more:
  assumes "list_all str_ok key" and "decodes_value pf v t" and "decodes_dict pf items inner"
  shows "decodes_dict pf ((key, v) # items)
           (concat (map escape_char key) @ [0x22] @ ustr '': '' @ t @ ustr '', '' @ (0x22 # inner))"
  unfolding decodes_dict_def
proof (intro allI impI)
  fix d rest
  assume "length (concat (map escape_char key) @ [0x22] @ ustr '': '' @ t @ ustr '', ''
            @ (0x22 # inner)) < d"
  then obtain d' where d: "d = Suc d'" and d1: "length t \<le> d'" and d2: "length inner < d'"
    by (cases d) simp_all
  let ?q = "inner @ 0x7D # rest"
  let ?r = "t @ 0x2C # 0x20 # 0x22 # ?q"
  have k: "scanstring (concat (map escape_char key) @ 0x22 # 0x3A # 0x20 # ?r) =
             Inr (key, 0x3A # 0x20 # ?r)"
    by (rule scanstring_encoded [OF assms(1)])
  have vs: "value_start t" using assms(2) by (simp add: decodes_value_def)
  have sk: "skip_ws ?r = ?r" by (rule value_start_skip_ws [OF vs])
  from assms(2) d1 have v: "scan_once d' pf ?r = Inr (v, 0x2C # 0x20 # 0x22 # ?q)"
    by (simp add: decodes_value_def)
  from assms(3) d2 have loop: "JSONObject_loop d' pf ?q = Inr (items, rest)"
    by (simp add: decodes_dict_def)
  have "JSONObject_loop (Suc d') pf (concat (map escape_char key) @ 0x22 # 0x3A # 0x20 # ?r) =
          Inr ((key, v) # items, rest)"
    using k sk v loop by simp
  then show "JSONObject_loop d pf
               ((concat (map escape_char key) @ [0x22] @ ustr '': '' @ t @ ustr '', ''
                 @ (0x22 # inner)) @ 0x7D # rest) =
             Inr ((key, v) # items, rest)"
    unfolding d by simp
qed

lemma encode_decodes:
  "json_value v \<longrightarrow> (\<exists>t. iterencode v = Inr t \<and> decodes_value pf v t)"
  "json_values lst \<longrightarrow> lst \<noteq> [] \<longrightarrow>
     (\<exists>inner. iterencode_list first lst = Inr ((if first then [] else ustr '', '') @ inner)
        \<and> decodes_list pf lst inner)"
  "json_items items \<longrightarrow> items \<noteq> [] \<longrightarrow>
     (\<exists>inner. iterencode_dict first' items =
                 Inr ((if first' then [] else ustr '', '') @ 0x22 # inner)
        \<and> decodes_dict pf items inner)"
proof (induction v and first lst and first' items
    rule: iterencode_iterencode_list_iterencode_dict.induct)
  case (1 s)
  show ?case using decodes_str [of s pf] by simp
next
  case 2
  show ?case using decodes_none [of pf] by simp
next
  case (3 b)
  show ?case using decodes_bool [of pf b] by simp
next
  case (4 i)
  show ?case using decodes_int [of i pf] by simp
next
  case (5 r)
  show ?case by simp
next
  case (6 lst)
  show ?case
  proof (cases "lst = []")
    case True
    then show ?thesis using decodes_list_empty [of pf] by simp
  next
    case False
    show ?thesis
    proof
      assume "json_value (PList lst)"
      with 6 False obtain inner where i: "iterencode_list True lst = Inr inner"
        and d: "decodes_list pf lst inner" by auto
      from decodes_list_nonempty [OF d] i False
      show "\<exists>t. iterencode (PList lst) = Inr t \<and> decodes_value pf (PList lst) t"
        by simp
    qed
  qed
next
  case (7 lst)
  show ?case by simp
next
  case (8 dct)
  show ?case
  proof (cases "dct = []")
    case True
    then show ?thesis using decodes_dict_empty [of pf] by simp
  next
    case False
    show ?thesis
    proof
      assume j: "json_value (PDict dct)"
      with 8 False obtain inner where i: "iterencode_dict True dct = Inr (0x22 # inner)"
        and d: "decodes_dict pf dct inner" by auto
      from j have "distinct (map fst dct)" by simp
      from decodes_dict_nonempty [OF d this] i False
      show "\<exists>t. iterencode (PDict dct) = Inr t \<and> decodes_value pf (PDict dct) t"
        by simp
    qed
  qed
next
  case (9 c t)
  show ?case by simp
next
  case (10 first)
  show ?case by simp
next
  case (11 first v lst)
  show ?case
  proof (intro impI)
    assume j: "json_values (v # lst)"
    with 11(1) obtain t where t: "iterencode v = Inr t" and dv: "decodes_value pf v t"
      by auto
    show "\<exists>inner. iterencode_list first (v # lst) =
                    Inr ((if first then [] else ustr '', '') @ inner)
            \<and> decodes_list pf (v # lst) inner"
    proof (cases "lst = []")
      case True
      with t decodes_list_last [OF dv] show ?thesis by simp
    next
      case False
      with 11(2) [OF t] j obtain inner where i: "iterencode_list False lst = Inr (ustr '', '' @ inner)"
        and d: "decodes_list pf lst inner" by auto
      from decodes_list_more [OF dv d] t i show ?thesis by simp
    qed
  qed
next
  case (12 first)
  show ?case by simp
next
  case (13 first key v items)
  show ?case
  proof (intro impI)
    assume j: "json_items ((key, v) # items)"
    then have k: "list_all str_ok key" by simp
    from j 13(1) obtain t where t: "iterencode v = Inr t" and dv: "decodes_value pf v t"
      by auto
    show "\<exists>inner. iterencode_dict first ((key, v) # items) =
                    Inr ((if first then [] else ustr '', '') @ 0x22 # inner)
            \<and> decodes_dict pf ((key, v) # items) inner"
    proof (cases "items = []")
      case True
      with t decodes_dict_last [OF k dv] show ?thesis
        by (simp add: encode_basestring_ascii_def)
    next
      case False
      with 13(2) [OF t] j obtain inner
        where i: "iterencode_dict False items = Inr (ustr '', '' @ 0x22 # inner)"
        and d: "decodes_dict pf items inner" by auto
      from decodes_dict_more [OF k dv d] t i show ?thesis
        by (simp add: encode_basestring_ascii_def)
    qed
  qed
qed

lemma json_loads_json_dumps:
  assumes "json_value v"
  shows "\<exists>text. json_dumps v = Inr text \<and> json_loads parse_float (PStr text) = Inr v"
proof -
  from encode_decodes(1) [of v parse_float] assms
  obtain t where t: "iterencode v = Inr t" and d: "decodes_value parse_float v t" by auto
  from d have vs: "value_start t"
    and all: "\<And>d rest. length t \<le> d \<Longrightarrow> number_end rest \<Longrightarrow>
                 scan_once d parse_float (t @ rest) = Inr (v, rest)"
    unfolding decodes_value_def by blast+
  have s: "scan_once (2 * length t + 2) parse_float (t @ []) = Inr (v, [])"
    by (rule all) simp_all
  have sk: "skip_ws t = t" using value_start_skip_ws [OF vs, of "[]"] by simp
  have bom: "take 1 t \<noteq> [0xFEFF]"
    using vs by (cases t) (auto simp: value_start_def is_digit_def)
  have "json_loads parse_float (PStr t) = Inr v"
    using s bom by (simp add: json_loads_def decode_def sk del: scan_once.simps)
  with t show ?thesis by (simp add: json_dumps_def)
qed



section \<open>Properties of the safe JSON codec and of the sample handler\<close>

lemma decimal_numeral_simps:
  "decimal 0 = [0x30]" "decimal (Suc 0) = [0x31]"
  "decimal (numeral k) =
     (if numeral k < (10::nat) then [0x30 + numeral k]
      else decimal (numeral k div 10) @ [0x30 + numeral k mod 10])"
  by (subst decimal.simps, simp)+






lemma safe_json_dumps_object_fallback:
  "safe_json_dumps (PObj c (ustr ''2024-01-01'')) (ustr ''{}'') = Inr (ustr ''\"2024-01-01\"'')
   \<and> safe_json_loads id (PStr (ustr ''\"2024-01-01\"'')) PNone = Inr (PStr (ustr ''2024-01-01''))"
proof -
  have j: "json_value (PStr (ustr ''2024-01-01''))" by (simp add: str_ok_def)
  have t: "safe_json_dumps (PObj c (ustr ''2024-01-01'')) (ustr ''{}'') = Inr (ustr ''\"2024-01-01\"'')"
    and l: "json_dumps (PStr (ustr ''2024-01-01'')) = Inr (ustr ''\"2024-01-01\"'')"
    by (simp_all add: safe_json_dumps_def json_dumps_def encode_basestring_ascii_def escape_char_def)
  from json_loads_json_dumps [OF j, of id] l t show ?thesis
    by (simp add: safe_json_loads_def)
qed



lemma int_repr_raises: "int_repr i = Inl e \<Longrightarrow> exn_class e = ValueError"
  by (auto simp: int_repr_def Let_def split: if_splits)

lemma iterencode_raises:
  "\<forall>e. iterencode v = Inl e \<longrightarrow> exn_class e = ValueError"
  "\<forall>e. iterencode_list first lst = Inl e \<longrightarrow> exn_class e = ValueError"
  "\<forall>e. iterencode_dict first' items = Inl e \<longrightarrow> exn_class e = ValueError"
proof (induction v and first lst and first' items
    rule: iterencode_iterencode_list_iterencode_dict.induct)
  case (4 i)
  show ?case using int_repr_raises by simp
next
  case (6 lst)
  then show ?case by (auto split: sum.splits)
next
  case (7 lst)
  then show ?case by (auto split: sum.splits)
next
  case (8 dct)
  then show ?case by (auto split: sum.splits)
next
  case (11 first v lst)
  then show ?case by (auto split: sum.splits)
next
  case (13 first key v items)
  then show ?case by (auto split: sum.splits)
qed simp_all

lemma safe_json_dumps_returns: "\<exists>text. safe_json_dumps obj dflt = Inr text"
proof (cases "json_dumps obj")
  case (Inl e)
  with iterencode_raises(1) [of obj] have "exn_class e = ValueError"
    by (simp add: json_dumps_def)
  with Inl show ?thesis by (simp add: safe_json_dumps_def caught_by_def)
next
  case (Inr t)
  then show ?thesis by (simp add: safe_json_dumps_def)
qed





lemma scan_sample_body:
  "scan_once (Suc (Suc (Suc (Suc (Suc (Suc d)))))) pf
     (ustr ''{\"user\":{\"id\":\"u1\"},\"request\":{\"action\":\"go\"}}'' @ r) =
   Inr (sample_parsed, r)"
  by (simp add: append_char_def dict_items_def sample_parsed_def is_ws_def)

lemma sample_body_parsed:
  "safe_json_loads pf
     (PStr (ustr ''{\"user\":{\"id\":\"u1\"},\"request\":{\"action\":\"go\"}}'')) (PDict []) =
   Inr sample_parsed"
proof -
  have f: "2 * length (ustr ''{\"user\":{\"id\":\"u1\"},\"request\":{\"action\":\"go\"}}'') + 2
           = Suc (Suc (Suc (Suc (Suc (Suc 88)))))"
    by simp
  show ?thesis
    unfolding safe_json_loads_def json_loads_def decode_def f
    using scan_sample_body [of 88 pf "[]"]
    by (simp add: is_ws_def del: scan_once.simps)
qed

lemma process_sample_event:
  "process_event_data pf sample_event =
     Inr \<lparr>user_id = PStr (ustr ''u1''), action = PStr (ustr ''go''), raw_body = sample_parsed\<rparr>"
proof -
  have b: "event_get_body sample_event =
             Inr (PStr (ustr ''{\"user\":{\"id\":\"u1\"},\"request\":{\"action\":\"go\"}}''))"
    by (simp add: event_get_body_def sample_event_def)
  have u: "get_nested_value sample_parsed (ustr ''user.id'') (PStr (ustr ''anonymous'')) (ustr ''.'')
             = Inr (PStr (ustr ''u1''))"
    and a: "get_nested_value sample_parsed (ustr ''request.action'') (PStr (ustr ''unknown''))
             (ustr ''.'') = Inr (PStr (ustr ''go''))"
    by (simp_all add: get_nested_value_def str_split_def sample_parsed_def)
  have f: "flatten_dict sample_parsed [] (ustr ''.'') =
             Inr (PDict [(ustr ''user.id'', PStr (ustr ''u1'')),
                         (ustr ''request.action'', PStr (ustr ''go''))])"
    by (simp add: flatten_dict_def sample_parsed_def dict_items_def)
  show ?thesis
    unfolding process_event_data_def b
    by (simp add: sample_body_parsed u a f del: ustr_simps)
qed

lemma sample_response_text:
  "json_dumps sample_decoded = Inr sample_body"
  by (simp add: json_dumps_def sample_decoded_def sample_body_def
      encode_basestring_ascii_def escape_char_def int_repr_def decimal_numeral_simps
      int_max_str_digits_def)

lemma sample_decoded_value: "json_value sample_decoded"
  by (simp add: sample_decoded_def str_ok_def decimal_numeral_simps int_max_str_digits_def)

text \<open>
  Claim C8. For the event \<open>{"body": "{\"user\":{\"id\":\"u1\"},\"request\":{\"action\":\"go\"}}"}\<close>
  the handler returns a response with \<open>statusCode\<close> 200, whose body decodes to a mapping that
  holds \<open>user_id = "u1"\<close> and \<open>action = "go"\<close> (in its \<open>data\<close> field).
\<close>

theorem lambda_handler_sample_event:
  "lambda_handler parse_float sample_event context =
     Inr \<lparr>statusCode = 200, headers = json_headers, body = sample_body\<rparr>
   \<and> json_loads parse_float (PStr sample_body) = Inr sample_decoded
   \<and> get_nested_value sample_decoded (ustr ''data.user_id'') PNone (ustr ''.'') =
       Inr (PStr (ustr ''u1''))
   \<and> get_nested_value sample_decoded (ustr ''data.action'') PNone (ustr ''.'') =
       Inr (PStr (ustr ''go''))"
proof -
  obtain logged where lg: "safe_json_dumps sample_event (ustr ''{}'') = Inr logged"
    using safe_json_dumps_returns by blast
  have d: "model_dump 200 (ustr ''Request processed successfully'')
             [(ustr ''user_id'', PStr (ustr ''u1'')), (ustr ''action'', PStr (ustr ''go'')),
              (ustr ''framework_version'', PStr framework_version)] = sample_decoded"
    by (simp add: model_dump_def sample_decoded_def framework_version_def)
  have h: "handle_request parse_float sample_event =
             Inr \<lparr>statusCode = 200, headers = json_headers, body = sample_body\<rparr>"
    unfolding handle_request_def process_sample_event
    by (simp add: d safe_json_dumps_def sample_response_text del: ustr_simps)
  from json_loads_json_dumps [OF sample_decoded_value, of parse_float] sample_response_text
  have l: "json_loads parse_float (PStr sample_body) = Inr sample_decoded" by simp
  have g: "get_nested_value sample_decoded (ustr ''data.user_id'') PNone (ustr ''.'') =
             Inr (PStr (ustr ''u1''))"
      "get_nested_value sample_decoded (ustr ''data.action'') PNone (ustr ''.'') =
             Inr (PStr (ustr ''go''))"
    by (simp_all add: get_nested_value_def str_split_def sample_decoded_def)
  from lg h l g show ?thesis by (simp add: lambda_handler_def)
qed

lemma safe_json_loads_not_text:
  "\<not> is_str x \<Longrightarrow> safe_json_loads parse_float x dflt = Inr dflt"
  by (cases x) (simp_all add: safe_json_loads_def json_loads_def caught_by_def)

lemma safe_json_loads_malformed_example:
  "safe_json_loads parse_float (PStr (ustr ''invalid json'')) (PDict []) = Inr (PDict [])"
proof -
  have "scan_once (Suc d) parse_float (ustr ''invalid json'') = Inl (json_error ''Expecting value'')"
    for d by (simp add: match_number_def)
  from this [of 25] show ?thesis
    by (simp add: safe_json_loads_def json_loads_def decode_def caught_by_def json_error_def
        is_ws_def del: scan_once.simps)
qed

lemma match_number_long_integer:
  "match_number long_integer = Some (long_integer, [], [], [])"
proof -
  have r: "long_integer = 0x31 # replicate 4300 0x31"
    unfolding long_integer_def by (simp add: replicate_Suc [symmetric] del: replicate_Suc)
  have d: "is_digit 0x31" by (simp add: is_digit_def)
  show ?thesis
    unfolding r
    by (simp add: match_number_def takeWhile_replicate dropWhile_replicate d match_frac_def
        match_exp_def)
qed

lemma decimal_4301: "map char_of (decimal 4301) = ''4301''"
  using char_of_char [of "CHR ''4''", where ?'a = nat] char_of_char [of "CHR ''3''", where ?'a = nat]
    char_of_char [of "CHR ''0''", where ?'a = nat] char_of_char [of "CHR ''1''", where ?'a = nat]
  by (simp add: decimal_numeral_simps)

text \<open>
  Claim C3 says that \<open>safe_json_loads\<close> never raises. It does on the text of an integer of
  4301 digits: \<open>json.loads\<close> raises the ValueError of the conversion limit, which is not a
  JSONDecodeError, and the \<open>except\<close> clause lets it through.
\<close>

theorem safe_json_loads_long_integer_raises:
  "safe_json_loads parse_float (PStr long_integer) dflt =
     Inl (Exn ValueError
       (''Exceeds the limit (4300 digits) for integer string conversion: value has 4301''
        @ '' digits; use sys.set_int_max_str_digits() to increase the limit''))"
proof -
  have r: "long_integer = 0x31 # replicate 4300 0x31"
    unfolding long_integer_def by (simp add: replicate_Suc [symmetric] del: replicate_Suc)
  have len: "length long_integer = 4301" by (simp add: long_integer_def)
  have p: "parse_int long_integer =
     Inl (Exn ValueError
       (''Exceeds the limit (4300 digits) for integer string conversion: value has 4301''
        @ '' digits; use sys.set_int_max_str_digits() to increase the limit''))"
    unfolding parse_int_def Let_def
    by (simp add: len int_max_str_digits_def decimal_4301 r)
  have m: "match_number (0x31 # replicate 4300 0x31) = Some (long_integer, [], [], [])"
    using match_number_long_integer unfolding r [symmetric] .
  have s: "scan_once (Suc d) parse_float long_integer =
     Inl (Exn ValueError
       (''Exceeds the limit (4300 digits) for integer string conversion: value has 4301''
        @ '' digits; use sys.set_int_max_str_digits() to increase the limit''))" for d
    unfolding r using scan_once_number [OF _ m, of d parse_float] p
    by (simp add: is_digit_def del: scan_once.simps)
  have sk: "skip_ws long_integer = long_integer"
    unfolding r by (simp add: is_ws_def)
  have b: "take 1 long_integer \<noteq> [0xFEFF]"
    unfolding r by (simp)
  show ?thesis
    using b by (simp add: safe_json_loads_def json_loads_def decode_def sk s caught_by_def
        del: scan_once.simps)
qed

end
